theory Spec2Isabelle
  imports Complex_Main
begin

section \<open>Text: Python strings as lists of code points\<close>

text \<open>
  A Python \<^verbatim>\<open>str\<close> is a sequence of Unicode code points; it is modelled as a list of
  natural numbers, so that \<^verbatim>\<open>len\<close> is \<open>length\<close> and the dashes U+2014 and U+2013 that
  the quality check looks for are single elements. \<open>asc\<close> embeds an ASCII literal.
\<close>

type_synonym ustr = "nat list"

definition asc :: "string \<Rightarrow> ustr" where
  "asc s = map of_char s"

text \<open>
  \<^verbatim>\<open>str.isspace\<close> for one code point: the white space of the Unicode database, which
  is also what \<^verbatim>\<open>str.strip()\<close> removes and what \<^verbatim>\<open>\s\<close> matches in a \<^verbatim>\<open>str\<close> pattern.
\<close>

definition is_space :: "nat \<Rightarrow> bool" where
  "is_space c \<longleftrightarrow>
     (9 \<le> c \<and> c \<le> 13) \<or> (28 \<le> c \<and> c \<le> 32) \<or> c = 133 \<or> c = 160 \<or> c = 5760 \<or>
     (8192 \<le> c \<and> c \<le> 8202) \<or> c = 8232 \<or> c = 8233 \<or> c = 8239 \<or> c = 8287 \<or> c = 12288"

text \<open>The line boundaries of \<^verbatim>\<open>str.splitlines()\<close>, the pair CR LF apart.\<close>

definition is_linebreak :: "nat \<Rightarrow> bool" where
  "is_linebreak c \<longleftrightarrow>
     (10 \<le> c \<and> c \<le> 13) \<or> (28 \<le> c \<and> c \<le> 30) \<or> c = 133 \<or> c = 8232 \<or> c = 8233"

definition strip :: "ustr \<Rightarrow> ustr" where
  "strip s = rev (dropWhile is_space (rev (dropWhile is_space s)))"

text \<open>\<^verbatim>\<open>l.rstrip("\n")\<close>: trailing line feeds only.\<close>

definition rstrip_nl :: "ustr \<Rightarrow> ustr" where
  "rstrip_nl s = rev (dropWhile (\<lambda>c. c = 10) (rev s))"

text \<open>
  \<^verbatim>\<open>str.lower()\<close> on the ASCII letters. The two tests that use it look for the prefixes
  \<^verbatim>\<open>watch next\<close> and \<^verbatim>\<open>type\<close>; the only code points outside ASCII whose lower case
  begins with an ASCII letter give \<^verbatim>\<open>k\<close> and \<^verbatim>\<open>i\<close>, which neither prefix contains.
\<close>

definition lower_cp :: "nat \<Rightarrow> nat" where
  "lower_cp c = (if 65 \<le> c \<and> c \<le> 90 then c + 32 else c)"

definition lower :: "ustr \<Rightarrow> ustr" where
  "lower s = map lower_cp s"

fun startswith :: "ustr \<Rightarrow> ustr \<Rightarrow> bool" where
  "startswith s [] = True"
| "startswith [] (p # ps) = False"
| "startswith (c # cs) (p # ps) = (c = p \<and> startswith cs ps)"

text \<open>\<^verbatim>\<open>sub in s\<close> for strings: \<open>sub\<close> occurs in \<open>s\<close> as a contiguous run.\<close>

fun contains :: "ustr \<Rightarrow> ustr \<Rightarrow> bool" where
  "contains [] sub = (sub = [])"
| "contains (c # cs) sub = (startswith (c # cs) sub \<or> contains cs sub)"

text \<open>
  \<^verbatim>\<open>str.splitlines()\<close>: \<open>cur\<close> is the line being read. A boundary ends the line, CR LF
  counts as one boundary, and a last line without a boundary is kept unless empty.
\<close>

fun splitlines_from :: "ustr \<Rightarrow> ustr \<Rightarrow> ustr list" where
  "splitlines_from cur [] = (if cur = [] then [] else [cur])"
| "splitlines_from cur [c] =
     (if is_linebreak c then [cur] else [cur @ [c]])"
| "splitlines_from cur (c # d # ds) =
     (if c = 13 \<and> d = 10 then cur # splitlines_from [] ds
      else if is_linebreak c then cur # splitlines_from [] (d # ds)
      else splitlines_from (cur @ [c]) (d # ds))"

definition splitlines :: "ustr \<Rightarrow> ustr list" where
  "splitlines s = splitlines_from [] s"

text \<open>\<^verbatim>\<open>s.split(sep)\<close> for a one-character separator.\<close>

fun split_from :: "nat \<Rightarrow> ustr \<Rightarrow> ustr \<Rightarrow> ustr list" where
  "split_from sep cur [] = [cur]"
| "split_from sep cur (c # cs) =
     (if c = sep then cur # split_from sep [] cs else split_from sep (cur @ [c]) cs)"

definition split_on :: "nat \<Rightarrow> ustr \<Rightarrow> ustr list" where
  "split_on sep s = split_from sep [] s"

text \<open>
  Decimal digits, for \<^verbatim>\<open>\d\<close> and \<^verbatim>\<open>int()\<close>: the ASCII digits. (Python accepts the
  decimal digits of other scripts as well, with the same values.)
\<close>

definition is_digit :: "nat \<Rightarrow> bool" where
  "is_digit c \<longleftrightarrow> 48 \<le> c \<and> c \<le> 57"

datatype error =
    ValueError
  | EmptyTranscript
  | MissingApiKey
  | GenerationFailed ustr
  | Fault ustr

text \<open>\<^verbatim>\<open>int(s)\<close> on a string of digits; anything else raises \<^verbatim>\<open>ValueError\<close>.\<close>

definition py_int :: "ustr \<Rightarrow> error + nat" where
  "py_int s =
     (if s \<noteq> [] \<and> list_all is_digit s
      then Inr (foldl (\<lambda>acc c. 10 * acc + (c - 48)) 0 s)
      else Inl ValueError)"

section \<open>The quality check\<close>

definition mmss_to_sec :: "ustr \<Rightarrow> error + nat" where
  "mmss_to_sec x =
     (case split_on 58 x of
        [m, s] \<Rightarrow>
          (case py_int m of
             Inl e \<Rightarrow> Inl e
           | Inr mi \<Rightarrow> (case py_int s of Inl e \<Rightarrow> Inl e | Inr si \<Rightarrow> Inr (mi * 60 + si)))
      | _ \<Rightarrow> Inl ValueError)"

text \<open>
  The pattern \<^verbatim>\<open>^(\d{2}:\d{2})\s+.+\<close> under \<^verbatim>\<open>re.match\<close>. \<open>spaces_then_text\<close> is
  \<^verbatim>\<open>\s+.+\<close> at the start of the rest: some white space, then one more character that
  is not a line feed (a line feed can only be taken by \<^verbatim>\<open>\s+\<close>). The result is group 1.
\<close>

fun spaces_then_text :: "ustr \<Rightarrow> bool" where
  "spaces_then_text (w # c # cs) = (is_space w \<and> (c \<noteq> 10 \<or> spaces_then_text (c # cs)))"
| "spaces_then_text _ = False"

fun ts_match :: "ustr \<Rightarrow> ustr option" where
  "ts_match (a # b # c # d # e # rest) =
     (if is_digit a \<and> is_digit b \<and> c = 58 \<and> is_digit d \<and> is_digit e \<and> spaces_then_text rest
      then Some [a, b, c, d, e] else None)"
| "ts_match _ = None"

record validated_link =
  url :: ustr
  ok :: bool
  title :: ustr
  reason :: ustr

text \<open>
  One constructor for each message that \<^verbatim>\<open>qa_check\<close> appends to \<^verbatim>\<open>issues\<close>, with the
  values the message is formatted from.
\<close>

datatype issue =
    DashPresent
  | MissingLabel ustr
  | NoTitleText ustr
  | TitleLength nat ustr
  | WatchNextNotProvided
  | WatchNextNoValidLinks
  | TagsNotDetected
  | TagsTooLong nat
  | TimestampsNotIncreasing
  | TooManyTimestamps nat

definition required_labels :: "ustr list" where
  "required_labels =
     [asc ''Option 1 (Highest SEO Reach)'',
      asc ''Option 2 (Parent High-Intent)'',
      asc ''Option 3 (Authority Explainer)'']"

text \<open>The index of the first element that satisfies the test (a \<^verbatim>\<open>for\<close> with \<^verbatim>\<open>break\<close>).\<close>

fun first_index :: "('a \<Rightarrow> bool) \<Rightarrow> 'a list \<Rightarrow> nat option" where
  "first_index P [] = None"
| "first_index P (x # xs) = (if P x then Some 0 else map_option Suc (first_index P xs))"

text \<open>\<^verbatim>\<open>while j < len(lines) and not lines[j].strip(): j += 1\<close>\<close>

function skip_blank :: "ustr list \<Rightarrow> nat \<Rightarrow> nat" where
  "skip_blank lines j =
     (if j < length lines \<and> strip (lines ! j) = [] then skip_blank lines (Suc j) else j)"
  by pat_completeness auto
termination
  by (relation "measure (\<lambda>(lines, j). length lines - j)") auto

declare skip_blank.simps [simp del]

definition dash_rule :: "ustr \<Rightarrow> issue list" where
  "dash_rule txt = (if contains txt [8212] \<or> contains txt [8211] then [DashPresent] else [])"

definition missing_label_rule :: "ustr \<Rightarrow> issue list" where
  "missing_label_rule txt =
     concat (map (\<lambda>lab. if \<not> contains txt lab then [MissingLabel lab] else []) required_labels)"

definition title_of_label :: "ustr list \<Rightarrow> ustr \<Rightarrow> issue list" where
  "title_of_label lines lab =
     (case first_index (\<lambda>line. strip line = lab) lines of
        None \<Rightarrow> []
      | Some idx \<Rightarrow>
          (let j = skip_blank lines (idx + 1) in
           if j \<ge> length lines then [NoTitleText lab]
           else (let title_text = strip (lines ! j); L = length title_text in
                 if L < 60 \<or> L > 75 then [TitleLength L lab] else [])))"

definition title_rule :: "ustr list \<Rightarrow> issue list" where
  "title_rule lines = concat (map (title_of_label lines) required_labels)"

definition has_watch_next :: "ustr list \<Rightarrow> bool" where
  "has_watch_next lines = list_ex (\<lambda>l. startswith (lower (strip l)) (asc ''watch next'')) lines"

definition valid_count :: "validated_link list \<Rightarrow> nat" where
  "valid_count validated_links = length (filter ok validated_links)"

definition watch_next_rule :: "ustr list \<Rightarrow> ustr \<Rightarrow> validated_link list \<Rightarrow> issue list" where
  "watch_next_rule lines link_mode validated_links =
     (if link_mode \<noteq> asc ''provided'' \<and> has_watch_next lines then [WatchNextNotProvided] else []) @
     (if link_mode = asc ''provided'' \<and> valid_count validated_links = 0 \<and> has_watch_next lines
      then [WatchNextNoValidLinks] else [])"

definition tags_rule :: "ustr list \<Rightarrow> issue list" where
  "tags_rule non_empty =
     (if non_empty \<noteq> [] then
        (let last_line = last non_empty in
         if \<not> contains last_line [44] then [TagsNotDetected]
         else if length last_line > 500 then [TagsTooLong (length last_line)]
         else [])
      else [])"

text \<open>A list of results, stopped at the first exception.\<close>

fun collect :: "(error + 'a) list \<Rightarrow> error + 'a list" where
  "collect [] = Inr []"
| "collect (x # xs) =
     (case x of
        Inl e \<Rightarrow> Inl e
      | Inr v \<Rightarrow> (case collect xs of Inl e \<Rightarrow> Inl e | Inr vs \<Rightarrow> Inr (v # vs)))"

definition timestamps_after_type :: "ustr list \<Rightarrow> ustr list" where
  "timestamps_after_type lines =
     (case first_index (\<lambda>line. startswith (lower (strip line)) (asc ''type'')) lines of
        None \<Rightarrow> []
      | Some type_idx \<Rightarrow>
          List.map_filter (\<lambda>line. ts_match (strip line)) (drop (type_idx + 1) lines))"

definition timestamp_rule :: "ustr list \<Rightarrow> error + issue list" where
  "timestamp_rule lines =
     (let ts = timestamps_after_type lines in
      if ts \<noteq> [] then
        (case collect (map mmss_to_sec ts) of
           Inl e \<Rightarrow> Inl e
         | Inr secs \<Rightarrow>
             Inr ((if list_ex (\<lambda>i. secs ! i \<ge> secs ! (i + 1)) [0 ..< length secs - 1]
                   then [TimestampsNotIncreasing] else []) @
                  (if length ts > 8 then [TooManyTimestamps (length ts)] else [])))
      else Inr [])"

text \<open>
  \<^verbatim>\<open>qa_check\<close> (lines 344 to 418): the rules in the order of the source, each adding to
  \<^verbatim>\<open>issues\<close>. \<open>qa_lines\<close> is \<^verbatim>\<open>lines\<close> and \<open>qa_non_empty\<close> is \<^verbatim>\<open>non_empty\<close>.
\<close>

definition qa_lines :: "ustr \<Rightarrow> ustr list" where
  "qa_lines txt = map rstrip_nl (splitlines txt)"

definition qa_non_empty :: "ustr list \<Rightarrow> ustr list" where
  "qa_non_empty lines = map strip (filter (\<lambda>l. strip l \<noteq> []) lines)"

definition qa_check :: "ustr \<Rightarrow> ustr \<Rightarrow> validated_link list \<Rightarrow> error + issue list" where
  "qa_check output_text link_mode validated_links =
     (let txt = output_text;
          lines = qa_lines txt;
          non_empty = qa_non_empty lines
      in case timestamp_rule lines of
           Inl e \<Rightarrow> Inl e
         | Inr ts_issues \<Rightarrow>
             Inr (dash_rule txt @ missing_label_rule txt @ title_rule lines @
                  watch_next_rule lines link_mode validated_links @
                  tags_rule non_empty @ ts_issues))"

section \<open>The generation client\<close>

text \<open>
  The text-generation service is outside the program. One call is an attempt with one
  model under one of the two call protocols; its reply is either an exception, of which
  the program reads \<^verbatim>\<open>str(e)\<close>, or a response whose text field may be absent
  (\<^verbatim>\<open>output_text\<close> for the first protocol, \<^verbatim>\<open>choices[0].message.content\<close> for the
  second). The service is a function of the number of calls made before, the protocol
  and the model, so that two attempts with the same model may differ. The instruction
  and user payloads are the same in every attempt of a run and are part of the service.
\<close>

datatype protocol = Responses | ChatCompletions

type_synonym reply = "ustr + ustr option"

type_synonym service = "nat \<Rightarrow> protocol \<Rightarrow> ustr \<Rightarrow> reply"

type_synonym config = "ustr \<rightharpoonup> ustr"

text \<open>\<^verbatim>\<open>x or ""\<close> for an optional string.\<close>

definition or_empty :: "ustr option \<Rightarrow> ustr" where
  "or_empty x = (case x of None \<Rightarrow> [] | Some t \<Rightarrow> t)"

definition get_client :: "ustr \<Rightarrow> error + unit" where
  "get_client api_key = (if api_key = [] then Inl MissingApiKey else Inr ())"

definition models_to_try :: "config \<Rightarrow> ustr list" where
  "models_to_try cfg =
     (let primary = strip (case cfg (asc ''OPENAI_MODEL'') of
                             None \<Rightarrow> asc ''gpt-5.2-thinking'' | Some m \<Rightarrow> m);
          fallbacks = map strip (filter (\<lambda>m. strip m \<noteq> [])
                        (split_on 44 (or_empty (cfg (asc ''OPENAI_FALLBACK_MODELS'')))))
      in primary # filter (\<lambda>m. m \<noteq> primary) fallbacks)"

text \<open>
  How a pass over the models ends: with the text that the function returns, or by
  leaving the loop with \<^verbatim>\<open>last_err\<close>.
\<close>

datatype pass_result = Returned ustr | FellThrough ustr

text \<open>
  The first loop (lines 462 to 479). \<open>n\<close> counts the calls made so far; the first
  component of the result lists the attempts made, in order.
\<close>

fun responses_pass ::
  "service \<Rightarrow> nat \<Rightarrow> ustr \<Rightarrow> ustr list \<Rightarrow> (protocol \<times> ustr) list \<times> pass_result" where
  "responses_pass svc n last_err [] = ([], FellThrough last_err)"
| "responses_pass svc n last_err (model_name # rest) =
     (case svc n Responses model_name of
        Inr text_field \<Rightarrow> ([(Responses, model_name)], Returned (strip (or_empty text_field)))
      | Inl e \<Rightarrow>
          if contains e (asc ''api.responses.write'')
          then ([(Responses, model_name)], FellThrough e)
          else (case responses_pass svc (Suc n) e rest of
                  (tried, r) \<Rightarrow> ((Responses, model_name) # tried, r)))"

text \<open>The second loop (lines 482 to 496).\<close>

fun chat_pass ::
  "service \<Rightarrow> nat \<Rightarrow> ustr \<Rightarrow> ustr list \<Rightarrow> (protocol \<times> ustr) list \<times> pass_result" where
  "chat_pass svc n last_err [] = ([], FellThrough last_err)"
| "chat_pass svc n last_err (model_name # rest) =
     (case svc n ChatCompletions model_name of
        Inr content \<Rightarrow>
          (let out = strip (or_empty content) in
           if out \<noteq> [] then ([(ChatCompletions, model_name)], Returned out)
           else (case chat_pass svc (Suc n) (asc ''Empty response from chat.completions.'') rest of
                   (tried, r) \<Rightarrow> ((ChatCompletions, model_name) # tried, r)))
      | Inl e \<Rightarrow>
          (case chat_pass svc (Suc n) e rest of
             (tried, r) \<Rightarrow> ((ChatCompletions, model_name) # tried, r)))"

text \<open>
  \<^verbatim>\<open>call_openai_metadata\<close> (lines 442 to 503). The result is the list of attempts made
  and either the returned text or the exception raised: \<open>MissingApiKey\<close> from
  \<^verbatim>\<open>get_client\<close>, or \<open>GenerationFailed last_err\<close> for the final \<^verbatim>\<open>RuntimeError\<close>,
  whose message is \<^verbatim>\<open>last_err\<close> between two fixed sentences, the second being the hint
  about the permissions of the key.
\<close>

definition call_openai_metadata ::
  "service \<Rightarrow> config \<Rightarrow> (protocol \<times> ustr) list \<times> (error + ustr)" where
  "call_openai_metadata svc cfg =
     (let models = models_to_try cfg;
          api_key = strip (or_empty (cfg (asc ''OPENAI_API_KEY'')))
      in case get_client api_key of
           Inl e \<Rightarrow> ([], Inl e)
         | Inr client \<Rightarrow>
             (case responses_pass svc 0 [] models of
                (tried1, Returned text_out) \<Rightarrow> (tried1, Inr text_out)
              | (tried1, FellThrough err1) \<Rightarrow>
                  (case chat_pass svc (length tried1) err1 models of
                     (tried2, Returned out) \<Rightarrow> (tried1 @ tried2, Inr out)
                   | (tried2, FellThrough err2) \<Rightarrow>
                       (tried1 @ tried2, Inl (GenerationFailed err2)))))"

text \<open>
  The words of the specification for one attempt, for stating the properties of the two
  passes: a first-protocol attempt fails without the scope signature, or fails with
  it; a second-protocol attempt does not return (an exception or an empty text), and the
  error it records.
\<close>

definition scope_error :: "ustr \<Rightarrow> bool" where
  "scope_error e = contains e (asc ''api.responses.write'')"

definition plain_failure :: "reply \<Rightarrow> bool" where
  "plain_failure r = (case r of Inl e \<Rightarrow> \<not> scope_error e | Inr t \<Rightarrow> False)"

definition scope_failure :: "reply \<Rightarrow> bool" where
  "scope_failure r = (case r of Inl e \<Rightarrow> scope_error e | Inr t \<Rightarrow> False)"

definition chat_failure :: "reply \<Rightarrow> bool" where
  "chat_failure r = (case r of Inl e \<Rightarrow> True | Inr t \<Rightarrow> strip (or_empty t) = [])"

definition recorded_error :: "reply \<Rightarrow> ustr" where
  "recorded_error r =
     (case r of Inl e \<Rightarrow> e | Inr t \<Rightarrow> asc ''Empty response from chat.completions.'')"

text \<open>
  The first pass ends without a return after exactly \<open>n1\<close> attempts: every model failed
  plainly (\<open>n1\<close> is the number of models), or the attempt \<open>n1 - 1\<close> is the first with the
  scope signature.
\<close>

definition first_pass_falls_through :: "service \<Rightarrow> ustr list \<Rightarrow> nat \<Rightarrow> bool" where
  "first_pass_falls_through svc models n1 \<longleftrightarrow>
     0 < n1 \<and> n1 \<le> length models \<and>
     (\<forall>i < n1 - 1. plain_failure (svc i Responses (models ! i))) \<and>
     (scope_failure (svc (n1 - 1) Responses (models ! (n1 - 1))) \<or>
      (n1 = length models \<and> plain_failure (svc (n1 - 1) Responses (models ! (n1 - 1)))))"

text \<open>Every attempt of the second pass, made after \<open>n1\<close> calls, fails or is empty.\<close>

definition second_pass_exhausted :: "service \<Rightarrow> ustr list \<Rightarrow> nat \<Rightarrow> bool" where
  "second_pass_exhausted svc models n1 \<longleftrightarrow>
     (\<forall>j < length models. chat_failure (svc (n1 + j) ChatCompletions (models ! j)))"

section \<open>Jobs and the worker\<close>

text \<open>
  The values of \<^verbatim>\<open>stage\<close> are fixed literals of the source, one constructor each:
  \<^verbatim>\<open>Queued...\<close>, \<^verbatim>\<open>Stopped (Hard Stop).\<close>, \<^verbatim>\<open>Extracting audio...\<close>,
  \<^verbatim>\<open>Loading speech model... (first run may take time)\<close>, \<^verbatim>\<open>Transcribing audio...\<close>,
  \<^verbatim>\<open>Validating links...\<close>, \<^verbatim>\<open>Generating metadata...\<close>, \<^verbatim>\<open>Final process check...\<close>,
  \<^verbatim>\<open>Done.\<close> and \<^verbatim>\<open>Error\<close>.
\<close>

datatype stage =
    Queued
  | Stopped_Hard_Stop
  | Extracting_audio
  | Loading_speech_model
  | Transcribing_audio
  | Validating_links
  | Generating_metadata
  | Final_process_check
  | Done
  | Error_stage

text \<open>The job dictionary that \<^verbatim>\<open>api_start\<close> creates; \<open>is_done\<close> is the key \<^verbatim>\<open>done\<close>.\<close>

record job =
  job_id :: ustr
  progress :: int
  stage :: stage
  is_done :: bool
  error :: "error option"
  transcript :: ustr
  metadata :: ustr
  qa_issues :: "issue list"
  qa_pass :: "bool option"

definition new_job :: "ustr \<Rightarrow> job" where
  "new_job jid =
     \<lparr>job_id = jid, progress = 1, stage = Queued, is_done = False, error = None,
      transcript = [], metadata = [], qa_issues = [], qa_pass = None\<rparr>"

text \<open>
  The keyword arguments of one \<^verbatim>\<open>update_job\<close> call: \<open>None\<close> for a key that is not
  passed.
\<close>

record kwargs =
  kw_progress :: "int option"
  kw_stage :: "stage option"
  kw_done :: "bool option"
  kw_error :: "error option"
  kw_transcript :: "ustr option"
  kw_metadata :: "ustr option"
  kw_qa_issues :: "issue list option"
  kw_qa_pass :: "bool option"

definition no_kwargs :: kwargs where
  "no_kwargs =
     \<lparr>kw_progress = None, kw_stage = None, kw_done = None, kw_error = None,
      kw_transcript = None, kw_metadata = None, kw_qa_issues = None, kw_qa_pass = None\<rparr>"

definition progress_stage :: "int \<Rightarrow> stage \<Rightarrow> kwargs" where
  "progress_stage p st = no_kwargs\<lparr>kw_progress := Some p, kw_stage := Some st\<rparr>"

text \<open>\<^verbatim>\<open>jobs[job_id].update(kwargs)\<close>\<close>

definition dict_update :: "kwargs \<Rightarrow> job \<Rightarrow> job" where
  "dict_update kw j =
     j\<lparr>progress := (case kw_progress kw of None \<Rightarrow> progress j | Some v \<Rightarrow> v),
       stage := (case kw_stage kw of None \<Rightarrow> stage j | Some v \<Rightarrow> v),
       is_done := (case kw_done kw of None \<Rightarrow> is_done j | Some v \<Rightarrow> v),
       error := (case kw_error kw of None \<Rightarrow> error j | Some v \<Rightarrow> Some v),
       transcript := (case kw_transcript kw of None \<Rightarrow> transcript j | Some v \<Rightarrow> v),
       metadata := (case kw_metadata kw of None \<Rightarrow> metadata j | Some v \<Rightarrow> v),
       qa_issues := (case kw_qa_issues kw of None \<Rightarrow> qa_issues j | Some v \<Rightarrow> v),
       qa_pass := (case kw_qa_pass kw of None \<Rightarrow> qa_pass j | Some v \<Rightarrow> Some v)\<rparr>"

type_synonym store = "ustr \<rightharpoonup> job"

definition update_job :: "ustr \<Rightarrow> kwargs \<Rightarrow> store \<Rightarrow> store" where
  "update_job jid kw jobs =
     (case jobs jid of None \<Rightarrow> jobs | Some j \<Rightarrow> jobs(jid \<mapsto> dict_update kw j))"

text \<open>
  What the worker does to the world, in order: an \<^verbatim>\<open>update_job\<close> call with its
  arguments, or a call of a collaborator.
\<close>

datatype event =
    Update kwargs
  | MakeTempDir
  | CopySource
  | ExtractAudio
  | ProbeDuration
  | LoadWhisper
  | Transcribe
  | ValidateLinks "ustr list"
  | LoadConfig
  | Generate
  | Attempt protocol ustr
  | QaCheck
  | CleanupTempDir
  | Unlink

text \<open>A speech segment of the transcription engine: \<^verbatim>\<open>s.start\<close>, \<^verbatim>\<open>s.end\<close>, \<^verbatim>\<open>s.text\<close>.\<close>

record segment =
  seg_start :: rat
  seg_end :: rat
  seg_text :: ustr

text \<open>
  The collaborators of one run of the worker, with the outcome of each call: \<open>Some e\<close>
  or \<open>Inl e\<close> is the exception it raises. \<open>transcribe\<close> gives the segments the lazy
  sequence yields, and \<open>segments_fault\<close> the exception that ends the sequence, if any.
  Times are rational numbers (the source has floats; rounding is not modelled).
\<close>

record env =
  make_tempdir :: "error option"
  copy_source :: "error option"
  extract_audio_wav_16k_mono :: "error option"
  ffprobe_duration :: rat
  get_whisper :: "error option"
  transcribe :: "error + segment list"
  segments_fault :: "error option"
  validate_links :: "ustr list \<Rightarrow> error + validated_link list"
  load_runtime_config :: config
  openai :: service
  cleanup_tempdir :: "error option"

text \<open>
  A piece of the worker: the events it causes, and its value or the exception that
  leaves it. \<open>and_then\<close> is sequencing; an exception skips what follows.
\<close>

type_synonym 'a step = "event list \<times> (error + 'a)"

definition emit :: "event \<Rightarrow> unit step" where
  "emit ev = ([ev], Inr ())"

definition call :: "event \<Rightarrow> error option \<Rightarrow> unit step" where
  "call ev fault = ([ev], case fault of None \<Rightarrow> Inr () | Some e \<Rightarrow> Inl e)"

definition call_for :: "event \<Rightarrow> error + 'a \<Rightarrow> 'a step" where
  "call_for ev r = ([ev], r)"

definition and_then :: "'a step \<Rightarrow> ('a \<Rightarrow> 'b step) \<Rightarrow> 'b step" where
  "and_then m f =
     (case m of
        (evs, Inl e) \<Rightarrow> (evs, Inl e)
      | (evs, Inr a) \<Rightarrow> (case f a of (evs', r) \<Rightarrow> (evs @ evs', r)))"

text \<open>
  \<^verbatim>\<open>with tempfile.TemporaryDirectory() as td\<close>: the directory is removed when the
  block is left, by its end or by an exception; a failure of the removal is raised.
\<close>

definition with_tempdir :: "env \<Rightarrow> 'a step \<Rightarrow> 'a step" where
  "with_tempdir env body =
     (case make_tempdir env of
        Some e \<Rightarrow> ([MakeTempDir], Inl e)
      | None \<Rightarrow>
          (case body of
             (evs, r) \<Rightarrow>
               ([MakeTempDir] @ evs @ [CleanupTempDir],
                case cleanup_tempdir env of Some e \<Rightarrow> Inl e | None \<Rightarrow> r)))"

text \<open>Decimal digits of a number and the format \<^verbatim>\<open>:02d\<close>.\<close>

fun digits :: "nat \<Rightarrow> ustr" where
  "digits n = (if n < 10 then [48 + n] else digits (n div 10) @ [48 + n mod 10])"

declare digits.simps [simp del]

definition fmt02d :: "int \<Rightarrow> ustr" where
  "fmt02d n =
     (if n < 0 then 45 # digits (nat (- n))
      else (let d = digits (nat n) in if length d < 2 then 48 # d else d))"

text \<open>\<^verbatim>\<open>int(x)\<close> for a float: towards zero.\<close>

definition trunc :: "rat \<Rightarrow> int" where
  "trunc x = (if x \<ge> 0 then \<lfloor>x\<rfloor> else \<lceil>x\<rceil>)"

text \<open>\<^verbatim>\<open>f"{int(s.start//60):02d}:{int(s.start%60):02d} {s.text.strip()}"\<close>\<close>

definition transcript_line :: "segment \<Rightarrow> ustr" where
  "transcript_line s =
     (let minutes = of_int \<lfloor>seg_start s / 60\<rfloor> :: rat;
          seconds = seg_start s - 60 * minutes
      in fmt02d (trunc minutes) @ [58] @ fmt02d (trunc seconds) @ [32] @ strip (seg_text s))"

fun join_nl :: "ustr list \<Rightarrow> ustr" where
  "join_nl [] = []"
| "join_nl [x] = x"
| "join_nl (x # y # rest) = x @ [10] @ join_nl (y # rest)"

text \<open>
  The loop over the segments (lines 1024 to 1033), with \<^verbatim>\<open>lines\<close> and \<^verbatim>\<open>last_pct\<close>
  as they stand before the next segment.
\<close>

fun transcribe_loop ::
  "rat \<Rightarrow> ustr list \<Rightarrow> int \<Rightarrow> segment list \<Rightarrow> error option \<Rightarrow> (ustr list) step" where
  "transcribe_loop dur lines last_pct [] fault =
     ([], case fault of None \<Rightarrow> Inr lines | Some e \<Rightarrow> Inl e)"
| "transcribe_loop dur lines last_pct (s # rest) fault =
     (let lines' = lines @ [transcript_line s] in
      if dur > 0 then
        (let covered = min 1 (seg_end s / dur);
             p = 20 + trunc (55 * covered)
         in if p > last_pct
            then (case transcribe_loop dur lines' p rest fault of
                    (evs, r) \<Rightarrow> (Update (progress_stage p Transcribing_audio) # evs, r))
            else transcribe_loop dur lines' last_pct rest fault)
      else transcribe_loop dur lines' last_pct rest fault)"

definition parse_links :: "ustr \<Rightarrow> ustr list" where
  "parse_links text_in =
     (let lines = map strip (filter (\<lambda>l. strip l \<noteq> []) (splitlines text_in))
      in filter (\<lambda>l. startswith l (asc ''http://'') \<or> startswith l (asc ''https://'')) lines)"

definition hard_stop_message :: ustr where
  "hard_stop_message =
     asc ''I can see the uploaded video file.'' @ [10] @
     asc ''Have you checked the sheet for uploaded video links?'' @ [10] @
     asc ''Please check the reporting sheet. You can find the uploaded video links from the reporting sheet. Use YouTube channel filters. Then copy and paste all the YouTube links from the sheet.''"

definition hard_stop_update :: kwargs where
  "hard_stop_update =
     no_kwargs\<lparr>kw_progress := Some 100, kw_stage := Some Stopped_Hard_Stop, kw_done := Some True,
       kw_transcript := Some [], kw_metadata := Some hard_stop_message,
       kw_qa_pass := Some True, kw_qa_issues := Some []\<rparr>"

definition generate :: "service \<Rightarrow> config \<Rightarrow> ustr step" where
  "generate svc cfg =
     (case call_openai_metadata svc cfg of
        (tried, r) \<Rightarrow> (Generate # map (\<lambda>(p, m). Attempt p m) tried, r))"

text \<open>The stages after the transcript is known (lines 1039 to 1051).\<close>

definition finish_job :: "env \<Rightarrow> ustr \<Rightarrow> ustr \<Rightarrow> ustr \<Rightarrow> unit step" where
  "finish_job env link_mode links_text transcript_text =
     and_then (emit (Update (progress_stage 80 Validating_links))) (\<lambda>_.
     (let urls = parse_links links_text in
     and_then (if link_mode = asc ''provided'' \<and> urls \<noteq> []
               then call_for (ValidateLinks urls) (validate_links env urls)
               else ([], Inr [])) (\<lambda>validated.
     and_then (emit (Update (progress_stage 88 Generating_metadata))) (\<lambda>_.
     and_then (call_for LoadConfig (Inr (load_runtime_config env))) (\<lambda>cfg.
     and_then (generate (openai env) cfg) (\<lambda>metadata_text.
     and_then (emit (Update (progress_stage 96 Final_process_check))) (\<lambda>_.
     and_then (call_for QaCheck (qa_check metadata_text link_mode validated)) (\<lambda>issues.
     and_then (emit (Update (no_kwargs\<lparr>kw_qa_issues := Some issues,
                                        kw_qa_pass := Some (length issues = 0)\<rparr>))) (\<lambda>_.
     emit (Update (no_kwargs\<lparr>kw_progress := Some 100, kw_stage := Some Done,
                     kw_done := Some True, kw_transcript := Some transcript_text,
                     kw_metadata := Some metadata_text\<rparr>)))))))))))"

text \<open>The body of the \<^verbatim>\<open>with\<close> block (lines 1003 to 1051).\<close>

definition process_audio :: "env \<Rightarrow> ustr \<Rightarrow> ustr \<Rightarrow> unit step" where
  "process_audio env link_mode links_text =
     and_then (call CopySource (copy_source env)) (\<lambda>_.
     and_then (call ExtractAudio (extract_audio_wav_16k_mono env)) (\<lambda>_.
     and_then (call_for ProbeDuration (Inr (ffprobe_duration env))) (\<lambda>dur.
     and_then (emit (Update (progress_stage 15 Loading_speech_model))) (\<lambda>_.
     and_then (call LoadWhisper (get_whisper env)) (\<lambda>_.
     and_then (emit (Update (progress_stage 20 Transcribing_audio))) (\<lambda>_.
     and_then (call_for Transcribe (transcribe env)) (\<lambda>segments.
     and_then (transcribe_loop dur [] 20 segments (segments_fault env)) (\<lambda>lines.
     (let transcript_text = strip (join_nl lines) in
      if transcript_text = [] then ([], Inl EmptyTranscript)
      else finish_job env link_mode links_text transcript_text)))))))))"

text \<open>The \<^verbatim>\<open>try\<close> block of \<^verbatim>\<open>worker\<close> (lines 982 to 1051).\<close>

definition worker_body :: "env \<Rightarrow> ustr \<Rightarrow> ustr \<Rightarrow> unit step" where
  "worker_body env link_mode links_text =
     (if link_mode = asc ''not_provided'' then emit (Update hard_stop_update)
      else
        and_then (emit (Update (progress_stage 5 Extracting_audio))) (\<lambda>_.
        with_tempdir env (process_audio env link_mode links_text)))"

text \<open>
  \<^verbatim>\<open>worker\<close> with its \<^verbatim>\<open>except\<close> and \<^verbatim>\<open>finally\<close> clauses: the events of a run, and
  the job store after them. Only \<^verbatim>\<open>update_job\<close> touches the store, and only at the key
  of the job, so the runs of other jobs do not interfere with this one.
\<close>

definition failure_update :: "error \<Rightarrow> kwargs" where
  "failure_update e =
     no_kwargs\<lparr>kw_done := Some True, kw_error := Some e, kw_stage := Some Error_stage,
       kw_progress := Some 100\<rparr>"

definition worker_events :: "env \<Rightarrow> ustr \<Rightarrow> ustr \<Rightarrow> event list" where
  "worker_events env link_mode links_text =
     (case worker_body env link_mode links_text of
        (evs, Inl e) \<Rightarrow> evs @ [Update (failure_update e)]
      | (evs, Inr u) \<Rightarrow> evs) @ [Unlink]"

fun run_events :: "ustr \<Rightarrow> store \<Rightarrow> event list \<Rightarrow> store" where
  "run_events jid jobs [] = jobs"
| "run_events jid jobs (ev # evs) =
     (case ev of
        Update kw \<Rightarrow> run_events jid (update_job jid kw jobs) evs
      | _ \<Rightarrow> run_events jid jobs evs)"

definition worker :: "ustr \<Rightarrow> env \<Rightarrow> ustr \<Rightarrow> ustr \<Rightarrow> store \<Rightarrow> store" where
  "worker jid env link_mode links_text jobs =
     run_events jid jobs (worker_events env link_mode links_text)"

text \<open>
  The record of the job as it is read at the start and after each \<^verbatim>\<open>update_job\<close> call
  of a run, in order.
\<close>

fun job_history :: "ustr \<Rightarrow> store \<Rightarrow> event list \<Rightarrow> job option list" where
  "job_history jid jobs [] = [jobs jid]"
| "job_history jid jobs (ev # evs) =
     (case ev of
        Update kw \<Rightarrow> jobs jid # job_history jid (update_job jid kw jobs) evs
      | _ \<Rightarrow> job_history jid jobs evs)"

text \<open>
  For the properties of a run: the values of \<^verbatim>\<open>progress\<close> that its \<^verbatim>\<open>update_job\<close>
  calls write, in order; that they never decrease and lie between two bounds; and that
  a piece of the worker that ends without an exception has written 100 last.
\<close>

definition progress_writes :: "event list \<Rightarrow> int list" where
  "progress_writes evs =
     List.map_filter (\<lambda>ev. case ev of Update kw \<Rightarrow> kw_progress kw | _ \<Rightarrow> None) evs"

definition progress_within :: "int \<Rightarrow> int \<Rightarrow> event list \<Rightarrow> bool" where
  "progress_within lo hi evs \<longleftrightarrow>
     sorted (progress_writes evs) \<and> (\<forall>p \<in> set (progress_writes evs). lo \<le> p \<and> p \<le> hi)"

definition ends_at_100 :: "'a step \<Rightarrow> bool" where
  "ends_at_100 m \<longleftrightarrow>
     (case snd m of
        Inl e \<Rightarrow> True
      | Inr a \<Rightarrow> progress_writes (fst m) \<noteq> [] \<and> last (progress_writes (fst m)) = 100)"

text \<open>
  An \<^verbatim>\<open>update_job\<close> call that leaves the outcome of the job alone: it passes no
  \<^verbatim>\<open>done\<close>, \<^verbatim>\<open>error\<close> or \<^verbatim>\<open>metadata\<close>, and its stage is not \<^verbatim>\<open>Done.\<close>
\<close>

definition in_progress_update :: "event \<Rightarrow> bool" where
  "in_progress_update ev \<longleftrightarrow>
     (case ev of
        Update kw \<Rightarrow>
          kw_done kw = None \<and> kw_error kw = None \<and> kw_metadata kw = None \<and>
          kw_qa_pass kw = None \<and> kw_stage kw \<noteq> Some Done
      | _ \<Rightarrow> True)"

text \<open>
  A run in which every collaborator succeeds: ten seconds of audio with two segments,
  no links, and a service that answers every attempt with one letter.
\<close>

definition sample_env :: env where
  "sample_env =
     \<lparr>make_tempdir = None, copy_source = None, extract_audio_wav_16k_mono = None,
      ffprobe_duration = 10, get_whisper = None,
      transcribe = Inr [\<lparr>seg_start = 0, seg_end = 3, seg_text = asc ''hi''\<rparr>,
                        \<lparr>seg_start = 4, seg_end = 9, seg_text = asc ''yo''\<rparr>],
      segments_fault = None,
      validate_links = (\<lambda>urls. Inr []),
      load_runtime_config = [asc ''OPENAI_API_KEY'' \<mapsto> asc ''k''],
      openai = (\<lambda>n p m. Inr (Some (asc ''x''))),
      cleanup_tempdir = None\<rparr>"

section \<open>Facts about the text functions\<close>

lemma startswith_iff: "startswith s p \<longleftrightarrow> (\<exists>r. s = p @ r)"
  by (induction s p rule: startswith.induct) auto

lemma contains_iff: "contains s sub \<longleftrightarrow> (\<exists>pre post. s = pre @ sub @ post)"
proof (induction s)
  case Nil
  then show ?case by auto
next
  case (Cons c cs)
  have "(\<exists>pre post. c # cs = pre @ sub @ post) \<longleftrightarrow>
        (\<exists>r. c # cs = sub @ r) \<or> (\<exists>pre post. cs = pre @ sub @ post)"
  proof
    assume "\<exists>pre post. c # cs = pre @ sub @ post"
    then obtain pre post where e: "c # cs = pre @ sub @ post" by blast
    show "(\<exists>r. c # cs = sub @ r) \<or> (\<exists>pre post. cs = pre @ sub @ post)"
    proof (cases pre)
      case Nil
      with e show ?thesis by auto
    next
      case (Cons a pre')
      with e have "cs = pre' @ sub @ post" by simp
      then show ?thesis by blast
    qed
  next
    assume "(\<exists>r. c # cs = sub @ r) \<or> (\<exists>pre post. cs = pre @ sub @ post)"
    then show "\<exists>pre post. c # cs = pre @ sub @ post"
    proof
      assume "\<exists>r. c # cs = sub @ r"
      then obtain r where "c # cs = [] @ sub @ r" by auto
      then show ?thesis by blast
    next
      assume "\<exists>pre post. cs = pre @ sub @ post"
      then obtain pre post where "c # cs = (c # pre) @ sub @ post" by auto
      then show ?thesis by blast
    qed
  qed
  with Cons show ?case by (simp add: startswith_iff)
qed

lemma contains_single: "contains s [c] \<longleftrightarrow> c \<in> set s"
  by (induction s) auto

lemma contains_set: "contains s sub \<Longrightarrow> set sub \<subseteq> set s"
  by (auto simp: contains_iff)

lemma all_dropWhile: "(\<forall>x\<in>set (dropWhile P s). P x) \<longleftrightarrow> (\<forall>x\<in>set s. P x)"
  by (induction s) auto

lemma strip_eq_Nil: "strip s = [] \<longleftrightarrow> (\<forall>c\<in>set s. is_space c)"
  by (simp add: strip_def dropWhile_eq_Nil_conv all_dropWhile)

lemma strip_subset: "set (strip s) \<subseteq> set s"
proof
  fix x assume "x \<in> set (strip s)"
  then have "x \<in> set (dropWhile is_space (rev (dropWhile is_space s)))" by (simp add: strip_def)
  then have "x \<in> set (rev (dropWhile is_space s))" by (rule set_dropWhileD)
  then have "x \<in> set (dropWhile is_space s)" by simp
  then show "x \<in> set s" by (rule set_dropWhileD)
qed

lemma strip_id: "s \<noteq> [] \<Longrightarrow> \<not> is_space (hd s) \<Longrightarrow> \<not> is_space (last s) \<Longrightarrow> strip s = s"
  by (cases s) (auto simp: strip_def last_rev hd_rev dropWhile_eq_self_iff split: if_splits)


lemma first_index_None: "first_index P xs = None \<longleftrightarrow> (\<forall>x\<in>set xs. \<not> P x)"
  by (induction xs) auto

lemma first_index_Some:
  "first_index P xs = Some i \<Longrightarrow> i < length xs \<and> P (xs ! i) \<and> (\<forall>x\<in>set (take i xs). \<not> P x)"
  by (induction xs arbitrary: i) (auto split: if_splits)


lemma skip_blank_to_end:
  "\<forall>l\<in>set mid. strip l = [] \<Longrightarrow> skip_blank (pre @ mid) (length pre) = length pre + length mid"
proof (induction mid arbitrary: pre)
  case Nil
  then show ?case by (subst skip_blank.simps) simp
next
  case (Cons m mid)
  have "skip_blank (pre @ m # mid) (length pre)
        = skip_blank ((pre @ [m]) @ mid) (length (pre @ [m]))"
    using Cons.prems by (subst skip_blank.simps) (simp add: nth_append)
  also have "\<dots> = length (pre @ [m]) + length mid"
    using Cons.prems by (intro Cons.IH) auto
  finally show ?case by simp
qed

section \<open>The hard stop\<close>

lemma hard_stop_lines: "splitlines hard_stop_message =
   [asc ''I can see the uploaded video file.'',
     asc ''Have you checked the sheet for uploaded video links?'',
     asc ''Please check the reporting sheet. You can find the uploaded video links from the reporting sheet. Use YouTube channel filters. Then copy and paste all the YouTube links from the sheet.'']"
  by (simp add: hard_stop_message_def splitlines_def asc_def is_linebreak_def)

text \<open>
  Claim C2. A job whose link mode is \<^verbatim>\<open>not_provided\<close> makes one \<^verbatim>\<open>update_job\<close> call and
  then only removes the uploaded file: no audio extraction, transcription, link
  validation, generation or quality check is invoked. The call writes the fixed message
  of three lines as metadata, an empty transcript, \<^verbatim>\<open>qa_pass = True\<close>, no issues,
  progress 100 and \<^verbatim>\<open>done = True\<close>, and leaves the other fields of the job as they were.
\<close>

theorem worker_hard_stop:
  assumes "jobs jid = Some j"
  shows "worker_events env (asc ''not_provided'') links_text = [Update hard_stop_update, Unlink] \<and>
     worker jid env (asc ''not_provided'') links_text jobs =
       jobs(jid \<mapsto> j\<lparr>progress := 100, stage := Stopped_Hard_Stop, is_done := True,
                       transcript := [], metadata := hard_stop_message,
                       qa_issues := [], qa_pass := Some True\<rparr>) \<and>
     length (splitlines hard_stop_message) = 3"
proof -
  have ev: "worker_events env (asc ''not_provided'') links_text = [Update hard_stop_update, Unlink]"
    by (simp add: worker_events_def worker_body_def emit_def)
  have "worker jid env (asc ''not_provided'') links_text jobs = update_job jid hard_stop_update jobs"
    by (simp add: worker_def ev)
  also have "\<dots> = jobs(jid \<mapsto> j\<lparr>progress := 100, stage := Stopped_Hard_Stop, is_done := True,
                       transcript := [], metadata := hard_stop_message,
                       qa_issues := [], qa_pass := Some True\<rparr>)"
    using assms by (simp add: update_job_def dict_update_def hard_stop_update_def no_kwargs_def)
  finally show ?thesis using ev by (simp add: hard_stop_lines)
qed

theorem worker_hard_stop_witness:
  "[[106, 49] \<mapsto> new_job [106, 49]] [106, 49] = Some (new_job [106, 49]) \<and>
   worker_events sample_env (asc ''not_provided'') [] = [Update hard_stop_update, Unlink] \<and>
   worker [106, 49] sample_env (asc ''not_provided'') [] [[106, 49] \<mapsto> new_job [106, 49]] =
     [[106, 49] \<mapsto>
        \<lparr>job_id = [106, 49], progress = 100, stage = Stopped_Hard_Stop, is_done = True,
         error = None, transcript = [], metadata = hard_stop_message, qa_issues = [],
         qa_pass = Some True\<rparr>]"
  using worker_hard_stop [of "[[106, 49] \<mapsto> new_job [106, 49]]" "[106, 49]" "new_job [106, 49]"
      sample_env "[]"]
  by (simp add: new_job_def)

section \<open>Facts about the quality check\<close>

lemma split_from_no_sep: "sep \<notin> set s \<Longrightarrow> split_from sep cur s = [cur @ s]"
  by (induction s arbitrary: cur) auto

lemma split_from_at_sep:
  "sep \<notin> set s \<Longrightarrow> split_from sep cur (s @ sep # r) = (cur @ s) # split_from sep [] r"
  by (induction s arbitrary: cur) auto

lemma mmss_to_sec_digits:
  assumes "is_digit a" "is_digit b" "is_digit d" "is_digit e"
  shows "mmss_to_sec [a, b, 58, d, e] =
           Inr ((10 * (a - 48) + (b - 48)) * 60 + (10 * (d - 48) + (e - 48)))"
proof -
  have ne: "a \<noteq> 58" "b \<noteq> 58" "d \<noteq> 58" "e \<noteq> 58"
    using assms by (auto simp: is_digit_def)
  have "split_on 58 [a, b, 58, d, e] = [[a, b], [d, e]]"
    using ne by (simp add: split_on_def)
  then show ?thesis using assms by (simp add: mmss_to_sec_def py_int_def)
qed

lemma ts_match_shape:
  "ts_match s = Some x \<Longrightarrow>
   \<exists>a b d e. x = [a, b, 58, d, e] \<and> is_digit a \<and> is_digit b \<and> is_digit d \<and> is_digit e"
  by (cases s rule: ts_match.cases) (auto split: if_splits)

lemma ts_match_secs: "ts_match s = Some x \<Longrightarrow> \<exists>n. mmss_to_sec x = Inr n"
  using ts_match_shape [of s x] mmss_to_sec_digits by blast

lemma collect_all_Inr:
  "\<forall>x\<in>set xs. \<exists>n. f x = Inr n \<Longrightarrow> \<exists>ns. collect (map f xs) = Inr ns \<and> map f xs = map Inr ns"
proof (induction xs)
  case Nil
  then show ?case by simp
next
  case (Cons x xs)
  then obtain n ns where "f x = Inr n" "collect (map f xs) = Inr ns" "map f xs = map Inr ns"
    by auto
  then show ?case by auto
qed


lemma timestamps_after_type_matched:
  "x \<in> set (timestamps_after_type lines) \<Longrightarrow> \<exists>s. ts_match s = Some x"
  by (auto simp: timestamps_after_type_def map_filter_def split: option.splits)

lemma timestamps_convert:
  "\<exists>secs. collect (map mmss_to_sec (timestamps_after_type lines)) = Inr secs"
  using collect_all_Inr [of "timestamps_after_type lines" mmss_to_sec]
    timestamps_after_type_matched ts_match_secs by blast

lemma timestamp_rule_total: "\<exists>ts_issues. timestamp_rule lines = Inr ts_issues"
  using timestamps_convert [of lines] by (auto simp: timestamp_rule_def Let_def)

lemma qa_check_total:
  "\<exists>ts_issues. timestamp_rule (qa_lines txt) = Inr ts_issues \<and>
     qa_check txt link_mode validated_links =
       Inr (dash_rule txt @ missing_label_rule txt @ title_rule (qa_lines txt) @
            watch_next_rule (qa_lines txt) link_mode validated_links @
            tags_rule (qa_non_empty (qa_lines txt)) @ ts_issues)"
  using timestamp_rule_total [of "qa_lines txt"] by (auto simp: qa_check_def Let_def)

text \<open>Which messages each rule can add.\<close>

lemma dash_rule_kind: "i \<in> set (dash_rule txt) \<Longrightarrow> i = DashPresent"
  by (cases "contains txt [8212] \<or> contains txt [8211]") (simp_all add: dash_rule_def)


lemma title_of_label_kind:
  "i \<in> set (title_of_label lines lab) \<Longrightarrow> i = NoTitleText lab \<or> (\<exists>n. i = TitleLength n lab)"
  unfolding title_of_label_def Let_def
  by (auto split: option.splits if_splits)

lemma title_rule_kind:
  "i \<in> set (title_rule lines) \<Longrightarrow> \<exists>lab. i = NoTitleText lab \<or> (\<exists>n. i = TitleLength n lab)"
  unfolding title_rule_def set_concat set_map
  using title_of_label_kind by blast

lemma watch_next_rule_kind:
  "i \<in> set (watch_next_rule lines link_mode validated_links) \<Longrightarrow>
   i = WatchNextNotProvided \<or> i = WatchNextNoValidLinks"
  unfolding watch_next_rule_def
  by (auto split: if_splits)

lemma tags_rule_kind:
  "i \<in> set (tags_rule non_empty) \<Longrightarrow> i = TagsNotDetected \<or> (\<exists>n. i = TagsTooLong n)"
  unfolding tags_rule_def Let_def
  by (simp split: if_splits)

lemma timestamp_rule_kind:
  "timestamp_rule lines = Inr ts_issues \<Longrightarrow> i \<in> set ts_issues \<Longrightarrow>
   i = TimestampsNotIncreasing \<or> (\<exists>n. i = TooManyTimestamps n)"
  unfolding timestamp_rule_def Let_def
  by (auto split: if_splits sum.splits)

section \<open>Lines of a text\<close>

lemma splitlines_from_no_break:
  "\<forall>c\<in>set s. \<not> is_linebreak c \<Longrightarrow> cur @ s \<noteq> [] \<Longrightarrow> splitlines_from cur s = [cur @ s]"
proof (induction cur s rule: splitlines_from.induct)
  case (1 cur)
  then show ?case by simp
next
  case (2 cur c)
  then show ?case by simp
next
  case (3 cur c d ds)
  have nb: "\<not> is_linebreak c" using "3.prems"(1) by simp
  then have ne13: "c \<noteq> 13" by (auto simp: is_linebreak_def)
  then have c13: "\<not> (c = 13 \<and> d = 10)" by simp
  have step: "splitlines_from cur (c # d # ds) = splitlines_from (cur @ [c]) (d # ds)"
    using nb ne13 by simp
  have "splitlines_from (cur @ [c]) (d # ds) = [(cur @ [c]) @ d # ds]"
    using "3.prems"(1) by (intro "3.IH"(3) [OF c13 nb]) simp_all
  with step show ?case by simp
qed

lemma rstrip_nl_id: "s = [] \<or> last s \<noteq> 10 \<Longrightarrow> rstrip_nl s = s"
  by (cases s rule: rev_cases) (auto simp: rstrip_nl_def)

lemma qa_lines_single:
  assumes "s \<noteq> []" "\<forall>c\<in>set s. \<not> is_linebreak c"
  shows "qa_lines s = [s]"
proof -
  have "splitlines s = [s]"
    using assms splitlines_from_no_break [of s "[]"] by (simp add: splitlines_def)
  moreover have "last s \<noteq> 10"
  proof -
    have "last s \<in> set s" using assms(1) by simp
    then have "\<not> is_linebreak (last s)" using assms(2) by blast
    then show ?thesis by (auto simp: is_linebreak_def)
  qed
  ultimately show ?thesis by (simp add: qa_lines_def rstrip_nl_id)
qed

lemmas text_eval =
  asc_def splitlines_def is_linebreak_def is_space_def strip_def rstrip_nl_def lower_def
  lower_cp_def qa_lines_def



section \<open>The Watch Next rule\<close>



section \<open>The tags line\<close>




section \<open>Blank text\<close>

lemma splitlines_from_chars:
  "x \<in> set cur \<union> set s \<Longrightarrow> is_linebreak x \<or> (\<exists>l\<in>set (splitlines_from cur s). x \<in> set l)"
proof (induction cur s rule: splitlines_from.induct)
  case (1 cur)
  then show ?case by auto
next
  case (2 cur c)
  then show ?case by auto
next
  case (3 cur c d ds)
  show ?case
  proof (cases "c = 13 \<and> d = 10")
    case True
    then have lb: "is_linebreak c" "is_linebreak d" by (simp_all add: is_linebreak_def)
    have "x \<in> set cur \<or> x = c \<or> x = d \<or> x \<in> set [] \<union> set ds" using "3.prems" by auto
    then show ?thesis
    proof (elim disjE)
      assume "x \<in> set [] \<union> set ds"
      from "3.IH"(1) [OF True this] show ?thesis using True by auto
    qed (use True lb in auto)
  next
    case nocrlf: False
    show ?thesis
    proof (cases "is_linebreak c")
      case True
      have "x \<in> set cur \<or> x = c \<or> x \<in> set [] \<union> set (d # ds)" using "3.prems" by auto
      then show ?thesis
      proof (elim disjE)
        assume "x \<in> set [] \<union> set (d # ds)"
        from "3.IH"(2) [OF nocrlf True this] show ?thesis using nocrlf True by auto
      qed (use nocrlf True in auto)
    next
      case False
      have "x \<in> set (cur @ [c]) \<union> set (d # ds)" using "3.prems" by auto
      from "3.IH"(3) [OF nocrlf False this] show ?thesis using nocrlf False by auto
    qed
  qed
qed

lemma rstrip_nl_chars: "x \<in> set l \<Longrightarrow> x = 10 \<or> x \<in> set (rstrip_nl l)"
proof -
  assume "x \<in> set l"
  then have "x \<in> set (takeWhile (\<lambda>c. c = 10) (rev l) @ dropWhile (\<lambda>c. c = 10) (rev l))"
    by simp
  then have "x \<in> set (takeWhile (\<lambda>c. c = 10) (rev l)) \<or> x \<in> set (dropWhile (\<lambda>c. c = 10) (rev l))"
    by (simp only: set_append Un_iff)
  then show ?thesis
    by (auto simp: rstrip_nl_def dest: set_takeWhileD)
qed

lemma linebreak_is_space: "is_linebreak c \<Longrightarrow> is_space c"
  unfolding is_linebreak_def is_space_def by arith

lemma line_feed_is_space: "is_space 10"
  by (simp add: is_space_def)

lemma blank_lines_all_space:
  assumes "\<forall>l\<in>set (qa_lines txt). strip l = []"
  shows "\<forall>c\<in>set txt. is_space c"
proof
  fix c assume "c \<in> set txt"
  then have "is_linebreak c \<or> (\<exists>l\<in>set (splitlines txt). c \<in> set l)"
    using splitlines_from_chars [of c "[]" "txt"] by (simp add: splitlines_def)
  then show "is_space c"
  proof
    assume "is_linebreak c"
    then show ?thesis by (rule linebreak_is_space)
  next
    assume "\<exists>l\<in>set (splitlines txt). c \<in> set l"
    then obtain l where l: "l \<in> set (splitlines txt)" "c \<in> set l" by blast
    then have "rstrip_nl l \<in> set (qa_lines txt)" by (simp add: qa_lines_def)
    then have "\<forall>x\<in>set (rstrip_nl l). is_space x" using assms strip_eq_Nil by blast
    moreover have "c = 10 \<or> c \<in> set (rstrip_nl l)" using l(2) by (rule rstrip_nl_chars)
    ultimately show ?thesis using line_feed_is_space by blast
  qed
qed

lemma label_letter: "lab \<in> set required_labels \<Longrightarrow> 79 \<in> set lab"
  by (auto simp: required_labels_def asc_def)

lemma label_not_blank: "lab \<in> set required_labels \<Longrightarrow> lab \<noteq> []"
  using label_letter by fastforce

lemma startswith_Nil: "startswith [] p \<longleftrightarrow> p = []"
  by (cases p) simp_all

text \<open>
  Claim C10. When every line of the text is blank (the empty text has no line at all),
  the check returns the three missing-label issues, in the order of the labels, and
  nothing else.
\<close>

theorem qa_check_blank_text:
  assumes "\<forall>l\<in>set (qa_lines txt). strip l = []"
  shows "qa_check txt link_mode validated_links =
           Inr [MissingLabel (asc ''Option 1 (Highest SEO Reach)''),
                MissingLabel (asc ''Option 2 (Parent High-Intent)''),
                MissingLabel (asc ''Option 3 (Authority Explainer)'')]"
proof -
  have sp: "\<forall>c\<in>set txt. is_space c" using assms by (rule blank_lines_all_space)
  have n79: "\<not> is_space 79" "\<not> is_space 8212" "\<not> is_space 8211"
    by (simp_all add: is_space_def)
  have dash: "dash_rule txt = []"
    using sp n79 by (auto simp: dash_rule_def contains_single)
  have nolab: "\<not> contains txt lab" if "lab \<in> set required_labels" for lab
    using contains_set [of "txt" lab] label_letter [OF that] sp n79 by blast
  then have missing: "missing_label_rule txt = map MissingLabel required_labels"
    by (simp add: missing_label_rule_def required_labels_def)
  have "first_index (\<lambda>line. strip line = lab) (qa_lines txt) = None"
    if "lab \<in> set required_labels" for lab
    using assms label_not_blank [OF that] by (auto simp: first_index_None)
  then have "title_of_label (qa_lines txt) lab = []" if "lab \<in> set required_labels" for lab
    using that by (simp add: title_of_label_def)
  then have titles: "title_rule (qa_lines txt) = []"
    by (simp add: title_rule_def)
  have "\<not> has_watch_next (qa_lines txt)"
    using assms by (auto simp: has_watch_next_def list_ex_iff lower_def startswith_Nil asc_def)
  then have watch: "watch_next_rule (qa_lines txt) link_mode validated_links = []"
    by (simp add: watch_next_rule_def)
  have "qa_non_empty (qa_lines txt) = []"
    using assms by (simp add: qa_non_empty_def filter_empty_conv)
  then have tags: "tags_rule (qa_non_empty (qa_lines txt)) = []"
    by (simp add: tags_rule_def)
  have "first_index (\<lambda>line. startswith (lower (strip line)) (asc ''type'')) (qa_lines txt) = None"
    using assms by (auto simp: first_index_None lower_def startswith_Nil asc_def)
  then have ts: "timestamp_rule (qa_lines txt) = Inr []"
    by (simp add: timestamp_rule_def timestamps_after_type_def)
  show ?thesis
    by (simp add: qa_check_def Let_def dash missing titles watch tags ts required_labels_def)
qed

theorem qa_check_blank_text_witness:
  "qa_check [] (asc ''provided'') [] =
     Inr [MissingLabel (asc ''Option 1 (Highest SEO Reach)''),
          MissingLabel (asc ''Option 2 (Parent High-Intent)''),
          MissingLabel (asc ''Option 3 (Authority Explainer)'')] \<and>
   qa_check [32, 10, 9, 13, 10, 32] (asc ''checked_no_links'') [] =
     Inr [MissingLabel (asc ''Option 1 (Highest SEO Reach)''),
          MissingLabel (asc ''Option 2 (Parent High-Intent)''),
          MissingLabel (asc ''Option 3 (Authority Explainer)'')]"
proof -
  have a: "\<forall>l\<in>set (qa_lines []). strip l = []"
    by (simp add: qa_lines_def splitlines_def)
  have b: "\<forall>l\<in>set (qa_lines [32, 10, 9, 13, 10, 32]). strip l = []"
    by (simp add: qa_lines_def splitlines_def is_linebreak_def rstrip_nl_def strip_def is_space_def)
  show ?thesis
    using qa_check_blank_text [OF a, of "asc ''provided''" "[]"]
      qa_check_blank_text [OF b, of "asc ''checked_no_links''" "[]"]
    by simp
qed

section \<open>The title labels\<close>

lemma asc_inject: "asc a = asc b \<longleftrightarrow> a = b"
  by (simp add: asc_def inj_map_eq_map [OF inj_of_char])

lemma asc_append: "asc (a @ b) = asc a @ asc b"
  by (simp add: asc_def)

lemma count_list_absent: "x \<notin> set xs \<Longrightarrow> count_list xs x = 0"
  by (simp add: count_list_0_iff)

lemma missing_label_rule_count:
  assumes "lab \<in> set required_labels"
  shows "count_list (missing_label_rule txt) (MissingLabel lab) = (if contains txt lab then 0 else 1)"
  using assms by (auto simp: missing_label_rule_def required_labels_def asc_inject)

lemma missing_label_rule_required:
  "MissingLabel lab \<in> set (missing_label_rule txt) \<Longrightarrow> lab \<in> set required_labels"
  by (auto simp: missing_label_rule_def split: if_splits)

text \<open>
  Claim C4, as amended. The check looks for each of the three labels anywhere in the
  text, as a contiguous run of characters, not as a line of its own. The issues contain
  the missing-label issue of a label once if the label does not occur in the text and
  not at all if it does, and no missing-label issue for anything else.
\<close>

theorem qa_check_missing_labels:
  "\<exists>issues. qa_check txt link_mode validated_links = Inr issues \<and>
     (\<forall>lab \<in> set required_labels.
        count_list issues (MissingLabel lab) =
          (if (\<exists>pre post. txt = pre @ lab @ post) then 0 else 1)) \<and>
     (\<forall>lab. MissingLabel lab \<in> set issues \<longrightarrow> lab \<in> set required_labels)"
proof -
  obtain ts_issues where ts: "timestamp_rule (qa_lines txt) = Inr ts_issues"
    and qa: "qa_check txt link_mode validated_links =
       Inr (dash_rule txt @ missing_label_rule txt @ title_rule (qa_lines txt) @
            watch_next_rule (qa_lines txt) link_mode validated_links @
            tags_rule (qa_non_empty (qa_lines txt)) @ ts_issues)"
    using qa_check_total by blast
  let ?issues = "dash_rule txt @ missing_label_rule txt @ title_rule (qa_lines txt) @
            watch_next_rule (qa_lines txt) link_mode validated_links @
            tags_rule (qa_non_empty (qa_lines txt)) @ ts_issues"
  have absent: "MissingLabel lab \<notin> set (dash_rule txt)"
      "MissingLabel lab \<notin> set (title_rule (qa_lines txt))"
      "MissingLabel lab \<notin> set (watch_next_rule (qa_lines txt) link_mode validated_links)"
      "MissingLabel lab \<notin> set (tags_rule (qa_non_empty (qa_lines txt)))"
      "MissingLabel lab \<notin> set ts_issues" for lab
    using dash_rule_kind [of "MissingLabel lab" "txt"]
      title_rule_kind [of "MissingLabel lab" "qa_lines txt"]
      watch_next_rule_kind [of "MissingLabel lab" "qa_lines txt" link_mode validated_links]
      tags_rule_kind [of "MissingLabel lab" "qa_non_empty (qa_lines txt)"]
      timestamp_rule_kind [OF ts, of "MissingLabel lab"]
    by auto
  have cnt: "count_list ?issues (MissingLabel lab) =
      count_list (missing_label_rule txt) (MissingLabel lab)" for lab
    using absent [of lab] by (simp add: count_list_absent)
  have mem: "MissingLabel lab \<in> set ?issues \<longleftrightarrow> MissingLabel lab \<in> set (missing_label_rule txt)"
    for lab
    using absent [of lab] by simp
  have "\<forall>lab \<in> set required_labels.
        count_list ?issues (MissingLabel lab) =
          (if (\<exists>pre post. txt = pre @ lab @ post) then 0 else 1)"
    using cnt missing_label_rule_count [of _ "txt"] by (simp add: contains_iff)
  moreover have "\<forall>lab. MissingLabel lab \<in> set ?issues \<longrightarrow> lab \<in> set required_labels"
    using mem missing_label_rule_required by blast
  ultimately show ?thesis using qa by blast
qed

theorem qa_check_missing_labels_witness:
  "\<exists>issues. qa_check (asc ''Option 2 (Parent High-Intent)'') (asc ''provided'') [] = Inr issues \<and>
     count_list issues (MissingLabel (asc ''Option 2 (Parent High-Intent)'')) = 0 \<and>
     count_list issues (MissingLabel (asc ''Option 1 (Highest SEO Reach)'')) = 1"
proof -
  have in2: "asc ''Option 2 (Parent High-Intent)'' \<in> set required_labels"
    and in1: "asc ''Option 1 (Highest SEO Reach)'' \<in> set required_labels"
    by (simp_all add: required_labels_def)
  have c2: "\<exists>pre post. asc ''Option 2 (Parent High-Intent)'' =
      pre @ asc ''Option 2 (Parent High-Intent)'' @ post"
    using append_Nil append_Nil2 by metis
  have "49 \<in> set (asc ''Option 1 (Highest SEO Reach)'')"
    and "49 \<notin> set (asc ''Option 2 (Parent High-Intent)'')"
    by (simp_all add: asc_def)
  then have c1: "\<not> (\<exists>pre post. asc ''Option 2 (Parent High-Intent)'' =
      pre @ asc ''Option 1 (Highest SEO Reach)'' @ post)"
    by (metis Un_iff set_append)
  obtain issues where
    q: "qa_check (asc ''Option 2 (Parent High-Intent)'') (asc ''provided'') [] = Inr issues" and
    a: "\<forall>lab \<in> set required_labels.
        count_list issues (MissingLabel lab) =
          (if (\<exists>pre post. asc ''Option 2 (Parent High-Intent)'' = pre @ lab @ post) then 0 else 1)"
    using qa_check_missing_labels [of "asc ''Option 2 (Parent High-Intent)''" "asc ''provided''" "[]"]
    by blast
  from a in2 c2 have "count_list issues (MissingLabel (asc ''Option 2 (Parent High-Intent)'')) = 0"
    by simp
  moreover from a in1 c1
  have "count_list issues (MissingLabel (asc ''Option 1 (Highest SEO Reach)'')) = 1"
    by simp
  ultimately show ?thesis using q by blast
qed

text \<open>
  The claim as it is written fails: in the text below the first label is inside a
  longer line, so it is not a line of the text, with or without the white space around
  the line, and yet the check reports only the other two labels as missing.
\<close>

theorem qa_check_missing_labels_counterexample:
  "qa_check (asc ''See Option 1 (Highest SEO Reach), x'') (asc ''provided'') [] =
     Inr [MissingLabel (asc ''Option 2 (Parent High-Intent)''),
          MissingLabel (asc ''Option 3 (Authority Explainer)'')] \<and>
   asc ''Option 1 (Highest SEO Reach)'' \<notin> set (qa_lines (asc ''See Option 1 (Highest SEO Reach), x'')) \<and>
   asc ''Option 1 (Highest SEO Reach)'' \<notin>
     set (map strip (qa_lines (asc ''See Option 1 (Highest SEO Reach), x'')))"
proof -
  let ?cx = "asc ''See Option 1 (Highest SEO Reach), x''"
  have l: "qa_lines ?cx = [?cx]"
    by (rule qa_lines_single) (simp_all add: asc_def is_linebreak_def)
  have st: "strip ?cx = ?cx"
    by (rule strip_id) (simp_all add: asc_def is_space_def)
  have ts: "timestamp_rule [?cx] = Inr []"
    by (simp add: timestamp_rule_def timestamps_after_type_def st;
        simp add: asc_def lower_def lower_cp_def)
  have d: "dash_rule ?cx = []"
    by (simp add: dash_rule_def contains_single asc_def)
  have "?cx = asc ''See '' @ asc ''Option 1 (Highest SEO Reach)'' @ asc '', x''"
    by (simp add: asc_append [symmetric])
  then have c1: "contains ?cx (asc ''Option 1 (Highest SEO Reach)'')"
    unfolding contains_iff by blast
  have "50 \<in> set (asc ''Option 2 (Parent High-Intent)'')" "50 \<notin> set ?cx"
    by (simp_all add: asc_def)
  then have c2: "\<not> contains ?cx (asc ''Option 2 (Parent High-Intent)'')"
    using contains_set by blast
  have "51 \<in> set (asc ''Option 3 (Authority Explainer)'')" "51 \<notin> set ?cx"
    by (simp_all add: asc_def)
  then have c3: "\<not> contains ?cx (asc ''Option 3 (Authority Explainer)'')"
    using contains_set by blast
  have m: "missing_label_rule ?cx =
      [MissingLabel (asc ''Option 2 (Parent High-Intent)''),
       MissingLabel (asc ''Option 3 (Authority Explainer)'')]"
    by (simp add: missing_label_rule_def required_labels_def c1 c2 c3)
  have t: "title_rule [?cx] = []"
    by (simp add: title_rule_def title_of_label_def required_labels_def st asc_inject)
  have w: "watch_next_rule [?cx] (asc ''provided'') [] = []"
    by (simp add: watch_next_rule_def has_watch_next_def st;
        simp add: asc_def lower_def lower_cp_def)
  have g: "tags_rule (qa_non_empty [?cx]) = []"
    by (simp add: tags_rule_def qa_non_empty_def st Let_def contains_single; simp add: asc_def)
  have q: "qa_check ?cx (asc ''provided'') [] =
     Inr [MissingLabel (asc ''Option 2 (Parent High-Intent)''),
          MissingLabel (asc ''Option 3 (Authority Explainer)'')]"
    by (simp add: qa_check_def Let_def l ts d m t w g)
  have n: "asc ''Option 1 (Highest SEO Reach)'' \<noteq> ?cx" by (simp add: asc_inject)
  show ?thesis using q n by (simp add: l st)
qed

section \<open>The title after a label\<close>








section \<open>Timestamps after the Type line\<close>






section \<open>The two passes of the generation client\<close>

lemma plain_failureE:
  assumes "plain_failure r"
  obtains e where "r = Inl e" "\<not> contains e (asc ''api.responses.write'')"
  using assms by (cases r) (auto simp: plain_failure_def scope_error_def)

lemma scope_failureE:
  assumes "scope_failure r"
  obtains e where "r = Inl e" "contains e (asc ''api.responses.write'')"
  using assms by (cases r) (auto simp: scope_failure_def scope_error_def)

lemma reply_cases:
  obtains (plain) "plain_failure r" | (scope) "scope_failure r" | (success) t where "r = Inr t"
  by (cases r) (auto simp: plain_failure_def scope_failure_def)

lemma responses_pass_success:
  "k < length ms \<Longrightarrow> \<forall>i<k. plain_failure (svc (n + i) Responses (ms ! i)) \<Longrightarrow>
   svc (n + k) Responses (ms ! k) = Inr t \<Longrightarrow>
   responses_pass svc n e0 ms =
     (map (Pair Responses) (take (Suc k) ms), Returned (strip (or_empty t)))"
proof (induction ms arbitrary: n e0 k)
  case Nil
  then show ?case by simp
next
  case (Cons m rest)
  show ?case
  proof (cases k)
    case 0
    with Cons.prems show ?thesis by simp
  next
    case (Suc k')
    have "plain_failure (svc n Responses m)" using Cons.prems(2) Suc by force
    then obtain e where e: "svc n Responses m = Inl e" "\<not> contains e (asc ''api.responses.write'')"
      by (rule plain_failureE)
    have "k' < length rest" using Cons.prems(1) Suc by simp
    moreover have "\<forall>i<k'. plain_failure (svc (Suc n + i) Responses (rest ! i))"
    proof (intro allI impI)
      fix i assume "i < k'"
      then have "Suc i < k" using Suc by simp
      then have "plain_failure (svc (n + Suc i) Responses ((m # rest) ! Suc i))"
        using Cons.prems(2) by blast
      then show "plain_failure (svc (Suc n + i) Responses (rest ! i))" by simp
    qed
    moreover have "svc (Suc n + k') Responses (rest ! k') = Inr t"
      using Cons.prems(3) Suc by simp
    ultimately have "responses_pass svc (Suc n) e rest =
        (map (Pair Responses) (take (Suc k') rest), Returned (strip (or_empty t)))"
      by (rule Cons.IH)
    then show ?thesis using e Suc by simp
  qed
qed

lemma responses_pass_scope:
  "k < length ms \<Longrightarrow> \<forall>i<k. plain_failure (svc (n + i) Responses (ms ! i)) \<Longrightarrow>
   svc (n + k) Responses (ms ! k) = Inl e \<Longrightarrow> contains e (asc ''api.responses.write'') \<Longrightarrow>
   responses_pass svc n e0 ms = (map (Pair Responses) (take (Suc k) ms), FellThrough e)"
proof (induction ms arbitrary: n e0 k)
  case Nil
  then show ?case by simp
next
  case (Cons m rest)
  show ?case
  proof (cases k)
    case 0
    with Cons.prems show ?thesis by simp
  next
    case (Suc k')
    have "plain_failure (svc n Responses m)" using Cons.prems(2) Suc by force
    then obtain e' where e': "svc n Responses m = Inl e'"
        "\<not> contains e' (asc ''api.responses.write'')"
      by (rule plain_failureE)
    have "k' < length rest" using Cons.prems(1) Suc by simp
    moreover have "\<forall>i<k'. plain_failure (svc (Suc n + i) Responses (rest ! i))"
    proof (intro allI impI)
      fix i assume "i < k'"
      then have "Suc i < k" using Suc by simp
      then have "plain_failure (svc (n + Suc i) Responses ((m # rest) ! Suc i))"
        using Cons.prems(2) by blast
      then show "plain_failure (svc (Suc n + i) Responses (rest ! i))" by simp
    qed
    moreover have "svc (Suc n + k') Responses (rest ! k') = Inl e"
      using Cons.prems(3) Suc by simp
    ultimately have "responses_pass svc (Suc n) e' rest =
        (map (Pair Responses) (take (Suc k') rest), FellThrough e)"
      using Cons.prems(4) by (rule Cons.IH)
    then show ?thesis using e' Suc by simp
  qed
qed

lemma responses_pass_all_plain:
  "\<forall>i<length ms. plain_failure (svc (n + i) Responses (ms ! i)) \<Longrightarrow>
   responses_pass svc n e0 ms =
     (map (Pair Responses) ms,
      FellThrough (if ms = [] then e0
                   else recorded_error (svc (n + (length ms - 1)) Responses (last ms))))"
proof (induction ms arbitrary: n e0)
  case Nil
  then show ?case by simp
next
  case (Cons m rest)
  have "plain_failure (svc n Responses m)" using Cons.prems by force
  then obtain e where e: "svc n Responses m = Inl e" "\<not> contains e (asc ''api.responses.write'')"
    by (rule plain_failureE)
  have "\<forall>i<length rest. plain_failure (svc (Suc n + i) Responses (rest ! i))"
  proof (intro allI impI)
    fix i assume "i < length rest"
    then have "Suc i < length (m # rest)" by simp
    then have "plain_failure (svc (n + Suc i) Responses ((m # rest) ! Suc i))"
      using Cons.prems by blast
    then show "plain_failure (svc (Suc n + i) Responses (rest ! i))" by simp
  qed
  then have IH: "responses_pass svc (Suc n) e rest =
     (map (Pair Responses) rest,
      FellThrough (if rest = [] then e
                   else recorded_error (svc (Suc n + (length rest - 1)) Responses (last rest))))"
    by (rule Cons.IH)
  show ?case
  proof (cases "rest = []")
    case True
    then show ?thesis using e by (simp add: recorded_error_def)
  next
    case False
    then have idx: "Suc (n + (length rest - Suc 0)) = n + length rest" by (cases rest) simp_all
    show ?thesis using e IH False by (simp add: idx)
  qed
qed

lemma chat_failure_step:
  assumes "chat_failure (svc n ChatCompletions m)"
    and "chat_pass svc (Suc n) (recorded_error (svc n ChatCompletions m)) rest = (tried, r)"
  shows "chat_pass svc n e0 (m # rest) = ((ChatCompletions, m) # tried, r)"
  using assms by (cases "svc n ChatCompletions m") (simp_all add: chat_failure_def recorded_error_def)

lemma chat_pass_success:
  "j < length ms \<Longrightarrow> \<forall>i<j. chat_failure (svc (n + i) ChatCompletions (ms ! i)) \<Longrightarrow>
   svc (n + j) ChatCompletions (ms ! j) = Inr t \<Longrightarrow> strip (or_empty t) \<noteq> [] \<Longrightarrow>
   chat_pass svc n e0 ms =
     (map (Pair ChatCompletions) (take (Suc j) ms), Returned (strip (or_empty t)))"
proof (induction ms arbitrary: n e0 j)
  case Nil
  then show ?case by simp
next
  case (Cons m rest)
  show ?case
  proof (cases j)
    case 0
    with Cons.prems show ?thesis by simp
  next
    case (Suc j')
    have f: "chat_failure (svc n ChatCompletions m)" using Cons.prems(2) Suc by force
    have "j' < length rest" using Cons.prems(1) Suc by simp
    moreover have "\<forall>i<j'. chat_failure (svc (Suc n + i) ChatCompletions (rest ! i))"
    proof (intro allI impI)
      fix i assume "i < j'"
      then have "Suc i < j" using Suc by simp
      then have "chat_failure (svc (n + Suc i) ChatCompletions ((m # rest) ! Suc i))"
        using Cons.prems(2) by blast
      then show "chat_failure (svc (Suc n + i) ChatCompletions (rest ! i))" by simp
    qed
    moreover have "svc (Suc n + j') ChatCompletions (rest ! j') = Inr t"
      using Cons.prems(3) Suc by simp
    ultimately have "chat_pass svc (Suc n) (recorded_error (svc n ChatCompletions m)) rest =
        (map (Pair ChatCompletions) (take (Suc j') rest), Returned (strip (or_empty t)))"
      using Cons.prems(4) by (rule Cons.IH)
    from chat_failure_step [OF f this] show ?thesis using Suc by simp
  qed
qed

lemma chat_pass_exhausted:
  "\<forall>i<length ms. chat_failure (svc (n + i) ChatCompletions (ms ! i)) \<Longrightarrow>
   chat_pass svc n e0 ms =
     (map (Pair ChatCompletions) ms,
      FellThrough (if ms = [] then e0
                   else recorded_error (svc (n + (length ms - 1)) ChatCompletions (last ms))))"
proof (induction ms arbitrary: n e0)
  case Nil
  then show ?case by simp
next
  case (Cons m rest)
  have f: "chat_failure (svc n ChatCompletions m)" using Cons.prems by force
  have "\<forall>i<length rest. chat_failure (svc (Suc n + i) ChatCompletions (rest ! i))"
  proof (intro allI impI)
    fix i assume "i < length rest"
    then have "Suc i < length (m # rest)" by simp
    then have "chat_failure (svc (n + Suc i) ChatCompletions ((m # rest) ! Suc i))"
      using Cons.prems by blast
    then show "chat_failure (svc (Suc n + i) ChatCompletions (rest ! i))" by simp
  qed
  then have IH: "chat_pass svc (Suc n) (recorded_error (svc n ChatCompletions m)) rest =
     (map (Pair ChatCompletions) rest,
      FellThrough (if rest = [] then recorded_error (svc n ChatCompletions m)
          else recorded_error (svc (Suc n + (length rest - 1)) ChatCompletions (last rest))))"
    by (rule Cons.IH)
  show ?case
  proof (cases "rest = []")
    case True
    then show ?thesis using chat_failure_step [OF f IH] by simp
  next
    case False
    then have idx: "Suc (n + (length rest - Suc 0)) = n + length rest" by (cases rest) simp_all
    show ?thesis using chat_failure_step [OF f IH] False by (simp add: idx)
  qed
qed

lemma models_to_try_shape:
  "models_to_try cfg \<noteq> [] \<and> hd (models_to_try cfg) \<notin> set (tl (models_to_try cfg))"
  by (simp add: models_to_try_def Let_def)

lemma first_pass_cases:
  assumes "ms \<noteq> []"
  obtains (success) k t where "k < length ms"
      "\<forall>i<k. plain_failure (svc i Responses (ms ! i))" "svc k Responses (ms ! k) = Inr t"
  | (fall) n1 where "first_pass_falls_through svc ms n1"
proof (cases "\<forall>i<length ms. plain_failure (svc i Responses (ms ! i))")
  case True
  have "0 < length ms" using assms by simp
  then have "first_pass_falls_through svc ms (length ms)"
    using True by (simp add: first_pass_falls_through_def)
  then show ?thesis by (rule fall)
next
  case False
  define k where "k = (LEAST i. i < length ms \<and> \<not> plain_failure (svc i Responses (ms ! i)))"
  have ex: "\<exists>i. i < length ms \<and> \<not> plain_failure (svc i Responses (ms ! i))"
    using False by blast
  have k: "k < length ms" "\<not> plain_failure (svc k Responses (ms ! k))"
    using LeastI_ex [OF ex] unfolding k_def by blast+
  have before: "\<forall>i<k. plain_failure (svc i Responses (ms ! i))"
  proof (intro allI impI)
    fix i assume "i < k"
    then have "\<not> (i < length ms \<and> \<not> plain_failure (svc i Responses (ms ! i)))"
      unfolding k_def by (rule not_less_Least)
    moreover have "i < length ms" using \<open>i < k\<close> k(1) by simp
    ultimately show "plain_failure (svc i Responses (ms ! i))" by blast
  qed
  show ?thesis
  proof (cases "svc k Responses (ms ! k)" rule: reply_cases)
    case plain
    with k(2) show ?thesis by simp
  next
    case scope
    then have "first_pass_falls_through svc ms (Suc k)"
      using k(1) before by (simp add: first_pass_falls_through_def)
    then show ?thesis by (rule fall)
  next
    case (success t)
    with k(1) before show ?thesis by (rule that(1))
  qed
qed

lemma second_pass_cases:
  obtains (success) j t where "j < length ms"
      "\<forall>i<j. chat_failure (svc (n1 + i) ChatCompletions (ms ! i))"
      "svc (n1 + j) ChatCompletions (ms ! j) = Inr t" "strip (or_empty t) \<noteq> []"
  | (exhausted) "second_pass_exhausted svc ms n1"
proof (cases "second_pass_exhausted svc ms n1")
  case True
  then show ?thesis by (rule exhausted)
next
  case False
  define j where "j = (LEAST i. i < length ms \<and> \<not> chat_failure (svc (n1 + i) ChatCompletions (ms ! i)))"
  have ex: "\<exists>i. i < length ms \<and> \<not> chat_failure (svc (n1 + i) ChatCompletions (ms ! i))"
    using False by (auto simp: second_pass_exhausted_def)
  have j: "j < length ms" "\<not> chat_failure (svc (n1 + j) ChatCompletions (ms ! j))"
    using LeastI_ex [OF ex] unfolding j_def by blast+
  have before: "\<forall>i<j. chat_failure (svc (n1 + i) ChatCompletions (ms ! i))"
  proof (intro allI impI)
    fix i assume "i < j"
    then have "\<not> (i < length ms \<and> \<not> chat_failure (svc (n1 + i) ChatCompletions (ms ! i)))"
      unfolding j_def by (rule not_less_Least)
    moreover have "i < length ms" using \<open>i < j\<close> j(1) by simp
    ultimately show "chat_failure (svc (n1 + i) ChatCompletions (ms ! i))" by blast
  qed
  from j(2) obtain t where "svc (n1 + j) ChatCompletions (ms ! j) = Inr t" "strip (or_empty t) \<noteq> []"
    by (cases "svc (n1 + j) ChatCompletions (ms ! j)") (auto simp: chat_failure_def)
  with j(1) before show ?thesis by (rule success)
qed

lemma first_pass_fall_value:
  assumes "first_pass_falls_through svc ms n1"
  shows "\<exists>e1. responses_pass svc 0 e0 ms = (map (Pair Responses) (take n1 ms), FellThrough e1)"
proof -
  from assms have n1: "0 < n1" "n1 \<le> length ms"
    and before: "\<forall>i < n1 - 1. plain_failure (svc i Responses (ms ! i))"
    and last: "scope_failure (svc (n1 - 1) Responses (ms ! (n1 - 1))) \<or>
      (n1 = length ms \<and> plain_failure (svc (n1 - 1) Responses (ms ! (n1 - 1))))"
    by (simp_all add: first_pass_falls_through_def)
  from last show ?thesis
  proof
    assume "scope_failure (svc (n1 - 1) Responses (ms ! (n1 - 1)))"
    then obtain e where e: "svc (n1 - 1) Responses (ms ! (n1 - 1)) = Inl e"
        "contains e (asc ''api.responses.write'')"
      by (rule scope_failureE)
    have "responses_pass svc 0 e0 ms =
        (map (Pair Responses) (take (Suc (n1 - 1)) ms), FellThrough e)"
      using n1 before e by (intro responses_pass_scope) simp_all
    then show ?thesis using n1 by simp
  next
    assume a: "n1 = length ms \<and> plain_failure (svc (n1 - 1) Responses (ms ! (n1 - 1)))"
    have "\<forall>i<length ms. plain_failure (svc (0 + i) Responses (ms ! i))"
    proof (intro allI impI)
      fix i assume "i < length ms"
      then have "i < n1 - 1 \<or> i = n1 - 1" using a by auto
      then show "plain_failure (svc (0 + i) Responses (ms ! i))" using before a by auto
    qed
    then have "responses_pass svc 0 e0 ms =
     (map (Pair Responses) ms,
      FellThrough (if ms = [] then e0
                   else recorded_error (svc (0 + (length ms - 1)) Responses (last ms))))"
      by (rule responses_pass_all_plain [where svc = svc and n = 0 and ms = ms])
    then show ?thesis using a by simp
  qed
qed

lemma call_with_key:
  assumes "strip (or_empty (cfg (asc ''OPENAI_API_KEY''))) \<noteq> []"
  shows "call_openai_metadata svc cfg =
     (case responses_pass svc 0 [] (models_to_try cfg) of
        (tried1, Returned text_out) \<Rightarrow> (tried1, Inr text_out)
      | (tried1, FellThrough err1) \<Rightarrow>
          (case chat_pass svc (length tried1) err1 (models_to_try cfg) of
             (tried2, Returned out) \<Rightarrow> (tried1 @ tried2, Inr out)
           | (tried2, FellThrough err2) \<Rightarrow> (tried1 @ tried2, Inl (GenerationFailed err2))))"
  using assms by (simp add: call_openai_metadata_def get_client_def Let_def)

lemma call_first_pass_success:
  assumes "strip (or_empty (cfg (asc ''OPENAI_API_KEY''))) \<noteq> []" "ms = models_to_try cfg"
    and "k < length ms" "\<forall>i<k. plain_failure (svc i Responses (ms ! i))"
    and "svc k Responses (ms ! k) = Inr t"
  shows "call_openai_metadata svc cfg =
     (map (Pair Responses) (take (Suc k) ms), Inr (strip (or_empty t)))"
proof -
  have "responses_pass svc 0 [] ms =
     (map (Pair Responses) (take (Suc k) ms), Returned (strip (or_empty t)))"
    using assms(3-5) by (intro responses_pass_success) simp_all
  then show ?thesis using assms(2) by (simp add: call_with_key [where cfg = cfg, OF assms(1)])
qed

lemma call_second_pass_success:
  assumes "strip (or_empty (cfg (asc ''OPENAI_API_KEY''))) \<noteq> []" "ms = models_to_try cfg"
    and "first_pass_falls_through svc ms n1"
    and "j < length ms" "\<forall>i<j. chat_failure (svc (n1 + i) ChatCompletions (ms ! i))"
    and "svc (n1 + j) ChatCompletions (ms ! j) = Inr t" "strip (or_empty t) \<noteq> []"
  shows "call_openai_metadata svc cfg =
     (map (Pair Responses) (take n1 ms) @ map (Pair ChatCompletions) (take (Suc j) ms),
      Inr (strip (or_empty t)))"
proof -
  obtain e1 where p1: "responses_pass svc 0 [] ms =
      (map (Pair Responses) (take n1 ms), FellThrough e1)"
    using first_pass_fall_value [OF assms(3)] by blast
  have len: "length (map (Pair Responses) (take n1 ms)) = n1"
    using assms(3) by (simp add: first_pass_falls_through_def)
  have "chat_pass svc n1 e1 ms =
     (map (Pair ChatCompletions) (take (Suc j) ms), Returned (strip (or_empty t)))"
    using assms(4-7) by (rule chat_pass_success)
  then show ?thesis
    using assms(2) p1 len by (simp add: call_with_key [where cfg = cfg, OF assms(1)])
qed

lemma call_exhausted:
  assumes "strip (or_empty (cfg (asc ''OPENAI_API_KEY''))) \<noteq> []" "ms = models_to_try cfg"
    and "first_pass_falls_through svc ms n1" "second_pass_exhausted svc ms n1"
  shows "call_openai_metadata svc cfg =
     (map (Pair Responses) (take n1 ms) @ map (Pair ChatCompletions) ms,
      Inl (GenerationFailed
             (recorded_error (svc (n1 + (length ms - 1)) ChatCompletions (last ms)))))"
proof -
  obtain e1 where p1: "responses_pass svc 0 [] ms =
      (map (Pair Responses) (take n1 ms), FellThrough e1)"
    using first_pass_fall_value [OF assms(3)] by blast
  have len: "length (map (Pair Responses) (take n1 ms)) = n1"
    using assms(3) by (simp add: first_pass_falls_through_def)
  have ne: "ms \<noteq> []" using assms(2) models_to_try_shape by simp
  have "\<forall>i<length ms. chat_failure (svc (n1 + i) ChatCompletions (ms ! i))"
    using assms(4) by (simp add: second_pass_exhausted_def)
  then have "chat_pass svc n1 e1 ms =
     (map (Pair ChatCompletions) ms,
      FellThrough (if ms = [] then e1
                   else recorded_error (svc (n1 + (length ms - 1)) ChatCompletions (last ms))))"
    by (rule chat_pass_exhausted)
  then show ?thesis
    using assms(2) p1 len ne by (simp add: call_with_key [where cfg = cfg, OF assms(1)])
qed

text \<open>
  Claim C1. The key is present, so the client is built (without it \<^verbatim>\<open>get_client\<close>
  raises before any attempt). \<open>ms\<close> is the list of models: the primary model, then the
  fallbacks without the primary. The result pairs the attempts made, in order, with
  the outcome.
  \<^item> If the first protocol succeeds at the model of index \<open>k\<close> after plain failures,
    exactly the first \<open>k + 1\<close> models are attempted and the text is returned.
  \<^item> If the first pass ends without a return after \<open>n1\<close> attempts (a failure with the
    scope signature at attempt \<open>n1\<close> stops the pass, the later models are skipped), the
    second protocol is tried over the whole list \<open>ms\<close> from its start, passing over
    failures and empty results. The first text that is not empty is returned.
  \<^item> If every attempt of the second pass fails or is empty, the error raised carries
    the error recorded last, that of the last attempt.
  \<^item> That error is raised exactly when both passes are exhausted in this way.
\<close>

theorem call_openai_metadata_passes:
  assumes "strip (or_empty (cfg (asc ''OPENAI_API_KEY''))) \<noteq> []"
    and "ms = models_to_try cfg"
  shows "ms \<noteq> [] \<and> hd ms \<notin> set (tl ms) \<and>
    (\<forall>k t. k < length ms \<and> (\<forall>i<k. plain_failure (svc i Responses (ms ! i))) \<and>
           svc k Responses (ms ! k) = Inr t \<longrightarrow>
       call_openai_metadata svc cfg =
         (map (Pair Responses) (take (Suc k) ms), Inr (strip (or_empty t)))) \<and>
    (\<forall>n1 j t. first_pass_falls_through svc ms n1 \<and> j < length ms \<and>
           (\<forall>i<j. chat_failure (svc (n1 + i) ChatCompletions (ms ! i))) \<and>
           svc (n1 + j) ChatCompletions (ms ! j) = Inr t \<and> strip (or_empty t) \<noteq> [] \<longrightarrow>
       call_openai_metadata svc cfg =
         (map (Pair Responses) (take n1 ms) @ map (Pair ChatCompletions) (take (Suc j) ms),
          Inr (strip (or_empty t)))) \<and>
    (\<forall>n1. first_pass_falls_through svc ms n1 \<and> second_pass_exhausted svc ms n1 \<longrightarrow>
       call_openai_metadata svc cfg =
         (map (Pair Responses) (take n1 ms) @ map (Pair ChatCompletions) ms,
          Inl (GenerationFailed
                 (recorded_error (svc (n1 + (length ms - 1)) ChatCompletions (last ms)))))) \<and>
    ((\<exists>e. snd (call_openai_metadata svc cfg) = Inl (GenerationFailed e)) \<longleftrightarrow>
       (\<exists>n1. first_pass_falls_through svc ms n1 \<and> second_pass_exhausted svc ms n1))"
proof -
  note key = assms(1) and ms = assms(2)
  have shape: "ms \<noteq> [] \<and> hd ms \<notin> set (tl ms)"
    using ms models_to_try_shape by simp
  have a: "\<forall>k t. k < length ms \<and> (\<forall>i<k. plain_failure (svc i Responses (ms ! i))) \<and>
           svc k Responses (ms ! k) = Inr t \<longrightarrow>
       call_openai_metadata svc cfg =
         (map (Pair Responses) (take (Suc k) ms), Inr (strip (or_empty t)))"
    using call_first_pass_success [where cfg = cfg and svc = svc, OF key ms] by blast
  have b: "\<forall>n1 j t. first_pass_falls_through svc ms n1 \<and> j < length ms \<and>
           (\<forall>i<j. chat_failure (svc (n1 + i) ChatCompletions (ms ! i))) \<and>
           svc (n1 + j) ChatCompletions (ms ! j) = Inr t \<and> strip (or_empty t) \<noteq> [] \<longrightarrow>
       call_openai_metadata svc cfg =
         (map (Pair Responses) (take n1 ms) @ map (Pair ChatCompletions) (take (Suc j) ms),
          Inr (strip (or_empty t)))"
    using call_second_pass_success [where cfg = cfg and svc = svc, OF key ms] by blast
  have c: "\<forall>n1. first_pass_falls_through svc ms n1 \<and> second_pass_exhausted svc ms n1 \<longrightarrow>
       call_openai_metadata svc cfg =
         (map (Pair Responses) (take n1 ms) @ map (Pair ChatCompletions) ms,
          Inl (GenerationFailed
                 (recorded_error (svc (n1 + (length ms - 1)) ChatCompletions (last ms)))))"
    using call_exhausted [where cfg = cfg and svc = svc, OF key ms] by blast
  have d: "(\<exists>e. snd (call_openai_metadata svc cfg) = Inl (GenerationFailed e)) \<longleftrightarrow>
       (\<exists>n1. first_pass_falls_through svc ms n1 \<and> second_pass_exhausted svc ms n1)"
  proof
    assume "\<exists>n1. first_pass_falls_through svc ms n1 \<and> second_pass_exhausted svc ms n1"
    then obtain n1 where "first_pass_falls_through svc ms n1" "second_pass_exhausted svc ms n1"
      by blast
    from call_exhausted [where cfg = cfg and svc = svc, OF key ms this]
    show "\<exists>e. snd (call_openai_metadata svc cfg) = Inl (GenerationFailed e)" by simp
  next
    assume raised: "\<exists>e. snd (call_openai_metadata svc cfg) = Inl (GenerationFailed e)"
    from shape have "ms \<noteq> []" by simp
    then show "\<exists>n1. first_pass_falls_through svc ms n1 \<and> second_pass_exhausted svc ms n1"
    proof (cases rule: first_pass_cases [where svc = svc])
      case (success k t)
      from call_first_pass_success [where cfg = cfg and svc = svc, OF key ms this] raised show ?thesis by simp
    next
      case (fall n1)
      show ?thesis
      proof (cases rule: second_pass_cases [where svc = svc and ms = ms and ?n1.0 = n1])
        case (success j t)
        from call_second_pass_success [where cfg = cfg and svc = svc, OF key ms fall this] raised show ?thesis by simp
      next
        case exhausted
        with fall show ?thesis by blast
      qed
    qed
  qed
  from shape a b c d show ?thesis by blast
qed

theorem call_openai_metadata_passes_witness:
  "call_openai_metadata (\<lambda>n p m. if n = 0 then Inl [120] else Inr (Some [32, 111, 107]))
      [asc ''OPENAI_API_KEY'' \<mapsto> [107], asc ''OPENAI_MODEL'' \<mapsto> [97],
       asc ''OPENAI_FALLBACK_MODELS'' \<mapsto> [98, 44, 97, 44, 99]] =
     ([(Responses, [97]), (Responses, [98])], Inr [111, 107]) \<and>
   call_openai_metadata
      (\<lambda>n p m. if p = Responses then Inl (asc ''api.responses.write'')
                else if n = 1 then Inr (Some []) else Inr (Some [104, 105]))
      [asc ''OPENAI_API_KEY'' \<mapsto> [107], asc ''OPENAI_MODEL'' \<mapsto> [97],
       asc ''OPENAI_FALLBACK_MODELS'' \<mapsto> [98, 44, 97, 44, 99]] =
     ([(Responses, [97]), (ChatCompletions, [97]), (ChatCompletions, [98])], Inr [104, 105]) \<and>
   call_openai_metadata (\<lambda>n p m. Inl [101])
      [asc ''OPENAI_API_KEY'' \<mapsto> [107], asc ''OPENAI_MODEL'' \<mapsto> [97],
       asc ''OPENAI_FALLBACK_MODELS'' \<mapsto> [98, 44, 97, 44, 99]] =
     ([(Responses, [97]), (Responses, [98]), (Responses, [99]),
       (ChatCompletions, [97]), (ChatCompletions, [98]), (ChatCompletions, [99])],
      Inl (GenerationFailed [101]))"
proof -
  define c :: config where "c = [asc ''OPENAI_API_KEY'' \<mapsto> [107], asc ''OPENAI_MODEL'' \<mapsto> [97],
       asc ''OPENAI_FALLBACK_MODELS'' \<mapsto> [98, 44, 97, 44, 99]]"
  define ms :: "ustr list" where "ms = [[97], [98], [99]]"
  define s1 :: service where "s1 = (\<lambda>n p m. if n = 0 then Inl [120] else Inr (Some [32, 111, 107]))"
  define s2 :: service where "s2 = (\<lambda>n p m. if p = Responses then Inl (asc ''api.responses.write'')
                else if n = 1 then Inr (Some []) else Inr (Some [104, 105]))"
  define s3 :: service where "s3 = (\<lambda>n p m. Inl [101])"
  have key: "strip (or_empty (c (asc ''OPENAI_API_KEY''))) \<noteq> []"
    by (simp add: c_def asc_inject or_empty_def strip_def is_space_def)
  have ms: "ms = models_to_try c"
    by (simp add: ms_def c_def models_to_try_def asc_inject or_empty_def split_on_def
        strip_def is_space_def)
  have sc: "scope_error (asc ''api.responses.write'')" "\<not> scope_error [120]"
      "\<not> scope_error [101]"
    by (simp_all add: scope_error_def asc_def)
  have p1: "1 < length ms \<and> (\<forall>i<1. plain_failure (s1 i Responses (ms ! i))) \<and>
      s1 1 Responses (ms ! 1) = Inr (Some [32, 111, 107])"
    by (simp add: ms_def s1_def plain_failure_def sc)
  have r1: "call_openai_metadata s1 c =
      (map (Pair Responses) (take (Suc 1) ms), Inr (strip (or_empty (Some [32, 111, 107]))))"
    by (rule call_openai_metadata_passes [where cfg = c and svc = s1, OF key ms,
          THEN conjunct2, THEN conjunct2, THEN conjunct1, rule_format, OF p1])
  have f2: "first_pass_falls_through s2 ms 1"
    by (simp add: first_pass_falls_through_def ms_def s2_def scope_failure_def sc)
  have p2: "first_pass_falls_through s2 ms 1 \<and> 1 < length ms \<and>
      (\<forall>i<1. chat_failure (s2 (1 + i) ChatCompletions (ms ! i))) \<and>
      s2 (1 + 1) ChatCompletions (ms ! 1) = Inr (Some [104, 105]) \<and>
      strip (or_empty (Some [104, 105])) \<noteq> []"
    using f2 by (simp add: ms_def s2_def chat_failure_def or_empty_def strip_def is_space_def)
  have r2: "call_openai_metadata s2 c =
      (map (Pair Responses) (take 1 ms) @ map (Pair ChatCompletions) (take (Suc 1) ms),
       Inr (strip (or_empty (Some [104, 105]))))"
    by (rule call_openai_metadata_passes [where cfg = c and svc = s2, OF key ms,
          THEN conjunct2, THEN conjunct2, THEN conjunct2, THEN conjunct1, rule_format, OF p2])
  have p3: "first_pass_falls_through s3 ms 3 \<and> second_pass_exhausted s3 ms 3"
    by (simp add: first_pass_falls_through_def second_pass_exhausted_def ms_def s3_def
        plain_failure_def chat_failure_def sc)
  have r3: "call_openai_metadata s3 c =
      (map (Pair Responses) (take 3 ms) @ map (Pair ChatCompletions) ms,
       Inl (GenerationFailed (recorded_error (s3 (3 + (length ms - 1)) ChatCompletions (last ms)))))"
    by (rule call_openai_metadata_passes [where cfg = c and svc = s3, OF key ms,
          THEN conjunct2, THEN conjunct2, THEN conjunct2, THEN conjunct2, THEN conjunct1,
          rule_format, OF p3])
  have e1: "call_openai_metadata s1 c = ([(Responses, [97]), (Responses, [98])], Inr [111, 107])"
    using r1 by (simp add: ms_def or_empty_def strip_def is_space_def)
  have e2: "call_openai_metadata s2 c =
      ([(Responses, [97]), (ChatCompletions, [97]), (ChatCompletions, [98])], Inr [104, 105])"
    using r2 by (simp add: ms_def or_empty_def strip_def is_space_def)
  have e3: "call_openai_metadata s3 c =
     ([(Responses, [97]), (Responses, [98]), (Responses, [99]),
       (ChatCompletions, [97]), (ChatCompletions, [98]), (ChatCompletions, [99])],
      Inl (GenerationFailed [101]))"
    using r3 by (simp add: ms_def s3_def recorded_error_def)
  show ?thesis
    using e1 e2 e3 unfolding s1_def s2_def s3_def c_def by simp
qed

section \<open>The transcript\<close>

lemma digits_shape: "digits n \<noteq> [] \<and> (\<forall>c\<in>set (digits n). 48 \<le> c \<and> c \<le> 57)"
proof (induction n rule: digits.induct)
  case (1 n)
  show ?case
  proof (cases "n < 10")
    case True
    then show ?thesis by (subst digits.simps, subst (2) digits.simps) simp
  next
    case False
    have m: "n mod 10 < 10" by simp
    from False "1.IH" have "digits (n div 10) \<noteq> []"
      "\<forall>c\<in>set (digits (n div 10)). 48 \<le> c \<and> c \<le> 57" by simp_all
    with False m show ?thesis
      by (subst digits.simps, subst (2) digits.simps) auto
  qed
qed

lemma fmt02d_shape: "fmt02d n \<noteq> [] \<and> \<not> is_space (hd (fmt02d n))"
proof -
  have d: "digits k \<noteq> []" "\<not> is_space (hd (digits k))" for k
  proof -
    show ne: "digits k \<noteq> []" using digits_shape by blast
    then have "hd (digits k) \<in> set (digits k)" by simp
    then have "48 \<le> hd (digits k) \<and> hd (digits k) \<le> 57" using digits_shape by blast
    then show "\<not> is_space (hd (digits k))" by (simp add: is_space_def)
  qed
  have s: "\<not> is_space 45" "\<not> is_space 48" by (simp_all add: is_space_def)
  show ?thesis using d s by (simp add: fmt02d_def Let_def)
qed

lemma transcript_line_shape:
  "transcript_line s \<noteq> [] \<and> \<not> is_space (hd (transcript_line s))"
  using fmt02d_shape by (simp add: transcript_line_def Let_def)

lemma join_nl_hd: "x \<noteq> [] \<Longrightarrow> join_nl (x # xs) \<noteq> [] \<and> hd (join_nl (x # xs)) = hd x"
  by (cases xs) simp_all

lemma strip_not_blank: "s \<noteq> [] \<Longrightarrow> \<not> is_space (hd s) \<Longrightarrow> strip s \<noteq> []"
proof -
  assume "s \<noteq> []" "\<not> is_space (hd s)"
  then have "hd s \<in> set s" "\<not> is_space (hd s)" by simp_all
  then show ?thesis using strip_eq_Nil by blast
qed

lemma transcript_empty_iff:
  "strip (join_nl (map transcript_line segs)) = [] \<longleftrightarrow> segs = []"
proof
  assume e: "strip (join_nl (map transcript_line segs)) = []"
  show "segs = []"
  proof (rule ccontr)
    assume "segs \<noteq> []"
    then obtain s rest where "segs = s # rest" by (cases segs) auto
    then have "join_nl (map transcript_line segs) \<noteq> [] \<and>
        hd (join_nl (map transcript_line segs)) = hd (transcript_line s)"
      using join_nl_hd [of "transcript_line s" "map transcript_line rest"] transcript_line_shape
      by simp
    then have "strip (join_nl (map transcript_line segs)) \<noteq> []"
      using transcript_line_shape [of s] by (intro strip_not_blank) simp_all
    with e show False by simp
  qed
next
  assume "segs = []"
  then show "strip (join_nl (map transcript_line segs)) = []" by (simp add: strip_def)
qed

lemma transcribe_loop_lines:
  "snd (transcribe_loop dur lines last_pct segs fault) =
     (case fault of None \<Rightarrow> Inr (lines @ map transcript_line segs) | Some e \<Rightarrow> Inl e)"
  by (induction dur lines last_pct segs fault rule: transcribe_loop.induct)
     (auto simp: Let_def split: prod.splits option.splits)

section \<open>A job without speech\<close>

lemma run_events_append:
  "run_events jid jobs (a @ b) = run_events jid (run_events jid jobs a) b"
  by (induction a arbitrary: jobs) (auto split: event.splits)

lemma run_events_in_progress:
  "jobs jid = Some j \<Longrightarrow> \<forall>ev\<in>set evs. in_progress_update ev \<Longrightarrow>
   \<exists>j'. run_events jid jobs evs jid = Some j' \<and> metadata j' = metadata j \<and>
        error j' = error j \<and> is_done j' = is_done j \<and> qa_pass j' = qa_pass j"
proof (induction evs arbitrary: jobs j)
  case Nil
  then show ?case by simp
next
  case (Cons ev evs)
  show ?case
  proof (cases ev)
    case (Update kw)
    with Cons.prems(2) have kw: "kw_done kw = None" "kw_error kw = None" "kw_metadata kw = None"
        "kw_qa_pass kw = None"
      by (simp_all add: in_progress_update_def)
    let ?j2 = "dict_update kw j"
    have u: "update_job jid kw jobs jid = Some ?j2"
      using Cons.prems(1) by (simp add: update_job_def)
    have same: "metadata ?j2 = metadata j" "error ?j2 = error j" "is_done ?j2 = is_done j"
        "qa_pass ?j2 = qa_pass j"
      using kw by (simp_all add: dict_update_def)
    from Cons.IH [of "update_job jid kw jobs" "dict_update kw j", OF u] Cons.prems(2)
    obtain j' where
      "run_events jid (update_job jid kw jobs) evs jid = Some j'" "metadata j' = metadata ?j2"
      "error j' = error ?j2" "is_done j' = is_done ?j2" "qa_pass j' = qa_pass ?j2"
      by auto
    then show ?thesis using Update same by simp
  qed (use Cons in auto)
qed

lemma worker_body_no_segments:
  assumes "link_mode \<noteq> asc ''not_provided''" "transcribe env = Inr []"
  shows "\<exists>evs e. worker_body env link_mode links_text = (evs, Inl e) \<and>
     (\<forall>ev\<in>set evs. in_progress_update ev) \<and>
     (make_tempdir env = None \<and> copy_source env = None \<and>
      extract_audio_wav_16k_mono env = None \<and> get_whisper env = None \<and>
      segments_fault env = None \<and> cleanup_tempdir env = None \<longrightarrow> e = EmptyTranscript)"
proof -
  have blank: "strip (join_nl []) = []" by (simp add: strip_def)
  have ip: "in_progress_update (Update (progress_stage p st))" if "st \<noteq> Done" for p st
    using that by (simp add: in_progress_update_def progress_stage_def no_kwargs_def)
  have other: "in_progress_update MakeTempDir" "in_progress_update CopySource"
      "in_progress_update ExtractAudio" "in_progress_update ProbeDuration"
      "in_progress_update LoadWhisper" "in_progress_update Transcribe"
      "in_progress_update CleanupTempDir"
    by (simp_all add: in_progress_update_def)
  show ?thesis
    using assms blank ip other
    by (auto simp: worker_body_def with_tempdir_def process_audio_def and_then_def emit_def
        call_def call_for_def split: option.splits)
qed

text \<open>
  Claim C8. The job is not a hard stop and the transcription yields the segments
  \<open>segs\<close>, whose lines assemble to an empty transcript. Then there is no segment at all
  (a line always starts with its time), no \<^verbatim>\<open>update_job\<close> call of the run writes the
  stage \<^verbatim>\<open>Done.\<close>, and the job ends failed: \<^verbatim>\<open>done\<close> is true, the progress is 100, the
  stage is \<^verbatim>\<open>Error\<close>, an error is recorded and the metadata is what it was. When no
  collaborator raises, the recorded error is the empty-transcript error.
\<close>

theorem worker_empty_transcript:
  assumes "link_mode \<noteq> asc ''not_provided''"
    and "jobs jid = Some j"
    and "transcribe env = Inr segs"
    and "strip (join_nl (map transcript_line segs)) = []"
  shows "segs = [] \<and>
    (\<forall>kw. Update kw \<in> set (worker_events env link_mode links_text) \<longrightarrow>
           kw_stage kw \<noteq> Some Done) \<and>
    (\<exists>j' e. worker jid env link_mode links_text jobs jid = Some j' \<and>
        is_done j' \<and> progress j' = 100 \<and> stage j' = Error_stage \<and> error j' = Some e \<and>
        metadata j' = metadata j \<and>
        (make_tempdir env = None \<and> copy_source env = None \<and>
         extract_audio_wav_16k_mono env = None \<and> get_whisper env = None \<and>
         segments_fault env = None \<and> cleanup_tempdir env = None \<longrightarrow> e = EmptyTranscript))"
proof -
  have segs: "segs = []" using assms(4) by (simp add: transcript_empty_iff)
  then have tr: "transcribe env = Inr []" using assms(3) by simp
  from worker_body_no_segments [OF assms(1) tr, of links_text]
  obtain evs e where body: "worker_body env link_mode links_text = (evs, Inl e)"
    and quiet: "\<forall>ev\<in>set evs. in_progress_update ev"
    and which: "make_tempdir env = None \<and> copy_source env = None \<and>
      extract_audio_wav_16k_mono env = None \<and> get_whisper env = None \<and>
      segments_fault env = None \<and> cleanup_tempdir env = None \<longrightarrow> e = EmptyTranscript"
    by blast
  have evs: "worker_events env link_mode links_text = evs @ [Update (failure_update e), Unlink]"
    by (simp add: worker_events_def body)
  have nodone: "\<forall>kw. Update kw \<in> set (worker_events env link_mode links_text) \<longrightarrow>
           kw_stage kw \<noteq> Some Done"
  proof (intro allI impI)
    fix kw assume "Update kw \<in> set (worker_events env link_mode links_text)"
    then have "Update kw \<in> set evs \<or> kw = failure_update e" by (auto simp: evs)
    then show "kw_stage kw \<noteq> Some Done"
    proof
      assume "Update kw \<in> set evs"
      then have "in_progress_update (Update kw)" using quiet by blast
      then show ?thesis by (simp add: in_progress_update_def)
    next
      assume "kw = failure_update e"
      then show ?thesis by (simp add: failure_update_def no_kwargs_def)
    qed
  qed
  from run_events_in_progress [where jobs = jobs and j = j, OF assms(2) quiet]
  obtain j1 where j1: "run_events jid jobs evs jid = Some j1" "metadata j1 = metadata j"
    by blast
  let ?j' = "dict_update (failure_update e) j1"
  have "worker jid env link_mode links_text jobs jid = Some ?j'"
    using j1(1) by (simp add: worker_def evs run_events_append update_job_def)
  moreover have "is_done ?j'" "progress ?j' = 100" "stage ?j' = Error_stage"
      "error ?j' = Some e" "metadata ?j' = metadata j"
    using j1(2) by (simp_all add: dict_update_def failure_update_def no_kwargs_def)
  ultimately show ?thesis using segs nodone which by blast
qed

theorem worker_empty_transcript_witness:
  "\<exists>j'. worker [106, 49] (sample_env\<lparr>transcribe := Inr []\<rparr>) (asc ''provided'') []
          [[106, 49] \<mapsto> new_job [106, 49]] [106, 49] = Some j' \<and>
        is_done j' \<and> progress j' = 100 \<and> stage j' = Error_stage \<and>
        error j' = Some EmptyTranscript \<and> metadata j' = []"
proof -
  have a: "asc ''provided'' \<noteq> asc ''not_provided''" by (simp add: asc_inject)
  have b: "[[106, 49] \<mapsto> new_job [106, 49]] [106, 49] = Some (new_job [106, 49])" by simp
  have c: "transcribe (sample_env\<lparr>transcribe := Inr []\<rparr>) = Inr []" by simp
  have d: "strip (join_nl (map transcript_line [])) = []" by (simp add: strip_def)
  have f: "make_tempdir (sample_env\<lparr>transcribe := Inr []\<rparr>) = None \<and>
      copy_source (sample_env\<lparr>transcribe := Inr []\<rparr>) = None \<and>
      extract_audio_wav_16k_mono (sample_env\<lparr>transcribe := Inr []\<rparr>) = None \<and>
      get_whisper (sample_env\<lparr>transcribe := Inr []\<rparr>) = None \<and>
      segments_fault (sample_env\<lparr>transcribe := Inr []\<rparr>) = None \<and>
      cleanup_tempdir (sample_env\<lparr>transcribe := Inr []\<rparr>) = None"
    by (simp add: sample_env_def)
  from worker_empty_transcript [where jobs = "[[106, 49] \<mapsto> new_job [106, 49]]"
      and j = "new_job [106, 49]" and links_text = "[]", OF a b c d] f
  show ?thesis by (auto simp: new_job_def)
qed

end
